theory Spec2Isabelle
  imports Main "HOL-Library.Signed_Division"
begin

section \<open>Go primitives used by the broker and the worker\<close>

text \<open>
  Go's \<open>int\<close> is modelled as \<open>int\<close>: every value that the theorems below compute is an
  index into, or the length of, a slice that exists, so it stays far from the 64-bit bounds.
  A run-time panic of the Go code is the \<open>Inl\<close> branch of a sum.
\<close>

datatype error = IndexOutOfRange | DivideByZero | LenOutOfRange

definition bindE :: "error + 'a \<Rightarrow> ('a \<Rightarrow> error + 'b) \<Rightarrow> error + 'b" where
  "bindE m f = (case m of Inl e \<Rightarrow> Inl e | Inr v \<Rightarrow> f v)"

definition index :: "'a list \<Rightarrow> int \<Rightarrow> error + 'a" where
  \<comment> \<open>the read \<open>s[i]\<close> of a slice\<close>
  "index s i = (if 0 \<le> i \<and> i < int (length s) then Inr (s ! nat i) else Inl IndexOutOfRange)"

definition store :: "'a list \<Rightarrow> int \<Rightarrow> 'a \<Rightarrow> error + 'a list" where
  \<comment> \<open>the assignment \<open>s[i] = v\<close> to a slice\<close>
  "store s i v = (if 0 \<le> i \<and> i < int (length s) then Inr (s[nat i := v]) else Inl IndexOutOfRange)"

definition store2 :: "'a list list \<Rightarrow> int \<Rightarrow> int \<Rightarrow> 'a \<Rightarrow> error + 'a list list" where
  \<comment> \<open>the assignment \<open>s[i][j] = v\<close>\<close>
  "store2 s i j v = bindE (index s i) (\<lambda>row. bindE (store row j v) (\<lambda>row'. store s i row'))"

definition make_slice :: "int \<Rightarrow> 'a \<Rightarrow> error + 'a list" where
  \<comment> \<open>\<open>make([]T, n)\<close>, every element the zero value \<open>z\<close> of \<open>T\<close>\<close>
  "make_slice n z = (if n < 0 then Inl LenOutOfRange else Inr (replicate (nat n) z))"

definition go_div :: "int \<Rightarrow> int \<Rightarrow> error + int" where
  \<comment> \<open>\<open>a / b\<close>: truncated towards zero, panics on a zero divisor\<close>
  "go_div a b = (if b = 0 then Inl DivideByZero else Inr (a sdiv b))"

definition go_rem :: "int \<Rightarrow> int \<Rightarrow> error + int" where
  \<comment> \<open>\<open>a % b\<close>: the remainder of the truncated division\<close>
  "go_rem a b = (if b = 0 then Inl DivideByZero else Inr (a smod b))"

function for_loop :: "int \<Rightarrow> int \<Rightarrow> (int \<Rightarrow> 's \<Rightarrow> error + 's) \<Rightarrow> 's \<Rightarrow> error + 's" where
  \<comment> \<open>\<open>for i := a; i < n; i++ { body }\<close> over the loop's state \<open>s\<close>\<close>
  "for_loop i n body s =
     (if i < n then (case body i s of Inl e \<Rightarrow> Inl e | Inr s' \<Rightarrow> for_loop (i + 1) n body s')
      else Inr s)"
  by pat_completeness auto
termination
  by (relation "measure (\<lambda>(i, n, body, s). nat (n - i))") auto

declare for_loop.simps [simp del]

definition for_le :: "int \<Rightarrow> int \<Rightarrow> (int \<Rightarrow> 's \<Rightarrow> error + 's) \<Rightarrow> 's \<Rightarrow> error + 's" where
  \<comment> \<open>\<open>for i := a; i <= n; i++ { body }\<close>\<close>
  "for_le i n body s = for_loop i (n + 1) body s"

section \<open>Grid model\<close>

record Cell =
  X :: int
  Y :: int
  Alive :: bool

record Field =
  Data :: "Cell list list"
  Height :: int
  Width :: int

record Region =
  Field :: "Cell list list"
  Start :: int
  End :: int
  Height :: int
  Width :: int

record World =
  Field :: Field
  Height :: int
  Width :: int

definition DefaultHaloOffset :: int where
  "DefaultHaloOffset = 1"

definition zero_Cell :: Cell where
  "zero_Cell = \<lparr>X = 0, Y = 0, Alive = False\<rparr>"

definition zero_Field :: Field where
  "zero_Field = \<lparr>Data = [], Field.Height = 0, Field.Width = 0\<rparr>"

definition zero_World :: World where
  "zero_World = \<lparr>World.Field = zero_Field, Height = 0, Width = 0\<rparr>"

section \<open>Broker: partitioning and halo construction\<close>

definition region :: "World \<Rightarrow> int \<Rightarrow> int \<Rightarrow> error + Region" where
  "region world w numWorkers =
     bindE (go_div (World.Height world) numWorkers) (\<lambda>regionHeight0.
       let start = w * regionHeight0;
           end0 = (w + 1) * regionHeight0;
           end = (if w = numWorkers - 1 then World.Height world else end0);
           regionHeight = end - start
       in
       bindE (go_rem end (World.Height world)) (\<lambda>downRowPtr.
       bindE (go_rem (start - 1 + World.Height world) (World.Height world)) (\<lambda>upRowPtr.
       bindE (make_slice (regionHeight + 2) []) (\<lambda>data0.
       bindE (index (Data (World.Field world)) upRowPtr) (\<lambda>up.
       bindE (store data0 0 up) (\<lambda>data1.
       bindE (for_le 1 regionHeight
                (\<lambda>row data. bindE (index (Data (World.Field world)) (start + row - 1))
                                (\<lambda>r. store data row r)) data1) (\<lambda>data2.
       bindE (index (Data (World.Field world)) downRowPtr) (\<lambda>down.
       bindE (store data2 (regionHeight + 1) down) (\<lambda>data3.
       Inr \<lparr>Region.Field = data3, Start = start, End = end,
            Height = regionHeight, Width = World.Width world\<rparr>)))))))))"

section \<open>Worker: one generation of a region\<close>

definition cultivate :: "int \<Rightarrow> int \<Rightarrow> error + Cell list list" where
  "cultivate height width =
     bindE (make_slice height []) (\<lambda>land.
       for_loop 0 (int (length land))
         (\<lambda>i land. bindE (make_slice width zero_Cell) (\<lambda>row. store land i row)) land)"

definition aliveNeighbours :: "Region \<Rightarrow> int \<Rightarrow> int \<Rightarrow> error + int" where
  \<comment> \<open>the two loops over \<open>i\<close> and \<open>j\<close> in \<open>Region.update\<close>; \<open>&&\<close> reads the cell only
      when \<open>j != 0 || i != 0\<close>\<close>
  "aliveNeighbours rg y x =
     for_le (- 1) 1 (\<lambda>i.
       for_le (- 1) 1 (\<lambda>j n.
         let wx = x + i; wy = y + j; wx = wx + Region.Width rg in
         bindE (go_rem wx (Region.Width rg)) (\<lambda>wx.
           if j \<noteq> 0 \<or> i \<noteq> 0 then
             bindE (index (Region.Field rg) wy) (\<lambda>row.
             bindE (index row wx) (\<lambda>c.
               Inr (if Alive c then n + 1 else n)))
           else Inr n))) 0"

definition nextCell :: "Region \<Rightarrow> int \<Rightarrow> int \<Rightarrow> error + Cell" where
  \<comment> \<open>the body of the loop over \<open>x\<close>, up to the store into the new field\<close>
  "nextCell rg y x =
     bindE (index (Region.Field rg) y) (\<lambda>row.
     bindE (index row x) (\<lambda>currentCell.
     bindE (aliveNeighbours rg y x) (\<lambda>n.
       let next = currentCell;
           next = (if n < 2 \<or> n > 3 then next\<lparr>Alive := False\<rparr> else next);
           next = (if n = 3 then next\<lparr>Alive := True\<rparr> else next)
       in Inr next)))"

definition update_Region :: "Region \<Rightarrow> error + Region" where
  \<comment> \<open>the worker's \<open>Region.update\<close>\<close>
  "update_Region rg =
     bindE (cultivate (Region.Height rg) (Region.Width rg)) (\<lambda>data.
     bindE (for_loop DefaultHaloOffset (Region.Height rg + DefaultHaloOffset) (\<lambda>y.
              for_loop 0 (Region.Width rg) (\<lambda>x data.
                bindE (nextCell rg y x) (\<lambda>c.
                  store2 data (y - DefaultHaloOffset) x c))) data) (\<lambda>data'.
     Inr (rg\<lparr>Region.Field := data'\<rparr>)))"

record WorkerProcessRequest =
  Region :: Region

record WorkerProcessResponse =
  Region :: Region

definition WorkerService_Process :: "WorkerProcessRequest \<Rightarrow> error + WorkerProcessResponse" where
  "WorkerService_Process req =
     bindE (update_Region (WorkerProcessRequest.Region req)) (\<lambda>rg.
       Inr \<lparr>WorkerProcessResponse.Region = rg\<rparr>)"

section \<open>Broker: fan-out and fan-in\<close>

definition update_rpc :: "Region \<Rightarrow> string \<Rightarrow> Cell list list" where
  \<comment> \<open>the broker's \<open>Region.update\<close>: the remote call of \<open>WorkerService.Process\<close> and the value
      sent on the worker's channel. The call's error result is dropped, and \<open>response\<close> is then
      still the zero Region, whose \<open>Field\<close> is nil. Connections are taken to succeed.\<close>
  "update_rpc rg ipAddress =
     (case WorkerService_Process \<lparr>WorkerProcessRequest.Region = rg\<rparr> of
        Inl e \<Rightarrow> []
      | Inr response \<Rightarrow> Region.Field (WorkerProcessResponse.Region response))"

definition update_World :: "string list \<Rightarrow> World \<Rightarrow> error + World" where
  \<comment> \<open>\<open>World.update\<close>; slot \<open>w\<close> of \<open>regionChannel\<close> holds the rows that channel \<open>w\<close> delivers\<close>
  "update_World workerAddrs world =
     (let numWorkers = int (length workerAddrs) in
      bindE (for_loop 0 numWorkers (\<lambda>workerID regionChannel.
               bindE (region world workerID numWorkers) (\<lambda>rg.
               bindE (index workerAddrs workerID) (\<lambda>addr.
                 store regionChannel workerID (update_rpc rg addr))))
             (replicate (nat numWorkers) [])) (\<lambda>regionChannel.
      bindE (for_loop 0 numWorkers (\<lambda>w newFieldData.
               bindE (index regionChannel w) (\<lambda>rg. Inr (newFieldData @ rg))) []) (\<lambda>newFieldData.
      Inr (world\<lparr>World.Field := (World.Field world)\<lparr>Data := newFieldData\<rparr>\<rparr>))))"

record util_Cell =
  X :: int
  Y :: int

definition aliveCellsInRow :: "Cell list \<Rightarrow> int \<Rightarrow> util_Cell list" where
  "aliveCellsInRow row y =
     map (\<lambda>(x, cell). \<lparr>util_Cell.X = int x, Y = y\<rparr>)
       (filter (\<lambda>(x, cell). Alive cell) (enumerate 0 row))"

definition alive :: "World \<Rightarrow> util_Cell list" where
  "alive world =
     concat (map (\<lambda>(y, row). aliveCellsInRow row (int y))
               (enumerate 0 (Data (World.Field world))))"

section \<open>Broker: session state and remote procedures\<close>

record BrokerProcessRequest =
  Turns :: int
  World :: World

record BrokerProcessResponse =
  World :: World
  Turns :: int

record BrokerReportResponse =
  Turns :: int
  CellsCount :: int

record BrokerSaveResponse =
  Turns :: int
  World :: World

record BrokerQuitResponse =
  Turns :: int

record BrokerShutdownResponse =
  Turns :: int

record BrokerPauseResponse =
  Turns :: int
  IsPaused :: bool

text \<open>
  The three channels are unbuffered. A channel field holds the values of the sends that are
  blocked on it, oldest first: a handler that sends stays blocked until the run loop receives
  its value.
\<close>

record BrokerService =
  Turns :: int
  CellsCount :: int
  World :: World
  quit :: "bool list"
  shutdown :: "bool list"
  pause :: "bool list"
  isPaused :: bool
  addresses :: "string list"

definition main_BrokerService :: BrokerService where
  \<comment> \<open>the service that \<open>main\<close> registers\<close>
  "main_BrokerService =
     \<lparr>BrokerService.Turns = 0, CellsCount = 0, World = zero_World,
      quit = [], shutdown = [], pause = [], isPaused = False,
      addresses = [''18.234.185.167:8030'', ''3.93.10.151:8030'']\<rparr>"

definition Report :: "BrokerService \<Rightarrow> BrokerReportResponse \<times> BrokerService" where
  "Report b =
     (\<lparr>BrokerReportResponse.Turns = BrokerService.Turns b,
       CellsCount = BrokerService.CellsCount b\<rparr>, b)"

definition Save :: "BrokerService \<Rightarrow> BrokerSaveResponse \<times> BrokerService" where
  "Save b =
     (\<lparr>BrokerSaveResponse.Turns = BrokerService.Turns b, World = BrokerService.World b\<rparr>, b)"

definition Quit :: "BrokerService \<Rightarrow> BrokerQuitResponse \<times> BrokerService" where
  "Quit b =
     (\<lparr>BrokerQuitResponse.Turns = BrokerService.Turns b\<rparr>,
      b\<lparr>BrokerService.Turns := 0, BrokerService.CellsCount := 0,
        BrokerService.World := zero_World, quit := quit b @ [True]\<rparr>)"

definition Shutdown :: "BrokerService \<Rightarrow> BrokerShutdownResponse \<times> BrokerService" where
  \<comment> \<open>the shutdown calls to the workers have no effect on the broker's state\<close>
  "Shutdown b =
     (let b = b\<lparr>shutdown := shutdown b @ [True]\<rparr>
      in (\<lparr>BrokerShutdownResponse.Turns = BrokerService.Turns b\<rparr>, b))"

definition Pause :: "BrokerService \<Rightarrow> BrokerPauseResponse \<times> BrokerService" where
  \<comment> \<open>the response is the one the handler builds if the session is not written between its send
      and its return\<close>
  "Pause b =
     (let b = b\<lparr>isPaused := \<not> isPaused b\<rparr>;
          b = b\<lparr>pause := pause b @ [isPaused b]\<rparr>
      in (\<lparr>BrokerPauseResponse.Turns = BrokerService.Turns b, IsPaused = isPaused b\<rparr>, b))"

section \<open>Broker: the run loop\<close>

datatype location = LoopHead | AwaitResume | Returned | Panicked error

record frame =
  \<comment> \<open>an activation of \<open>BrokerService.Process\<close>: its locals, its response and where it is\<close>
  turns :: int
  world :: World
  turn :: int
  res :: BrokerProcessResponse
  pc :: location

definition zero_BrokerProcessResponse :: BrokerProcessResponse where
  "zero_BrokerProcessResponse = \<lparr>BrokerProcessResponse.World = zero_World, Turns = 0\<rparr>"

definition Process_begin :: "BrokerProcessRequest \<Rightarrow> frame" where
  \<comment> \<open>the response is allocated by the RPC server, every field zero\<close>
  "Process_begin req =
     \<lparr>turns = BrokerProcessRequest.Turns req, world = BrokerProcessRequest.World req,
      turn = 0, res = zero_BrokerProcessResponse, pc = LoopHead\<rparr>"

datatype action = Complete | RecvPause bool | RecvResume bool | RecvQuit | Compute | Idle
  | Panic error

text \<open>
  One step of the run loop: the loop's exit, one pass through the body of the loop, or the
  receive that ends a pause. A \<open>select\<close> takes one of the cases whose channel has a blocked
  sender, whichever (Go chooses among the ready cases at random), and its \<open>default\<close> only
  when no case is ready. The quit case returns without an assignment to \<open>res\<close>. A step is taken
  as a whole; \<open>fine_step\<close> below takes the turn apart.
\<close>

inductive Process_step :: "BrokerService \<times> frame \<Rightarrow> action \<Rightarrow> BrokerService \<times> frame \<Rightarrow> bool" where
  complete:
    "pc f = LoopHead \<Longrightarrow> \<not> turn f < turns f \<Longrightarrow>
     Process_step (b, f) Complete
       (b, f\<lparr>res := \<lparr>BrokerProcessResponse.World = world f, Turns = BrokerService.Turns b\<rparr>,
              pc := Returned\<rparr>)"
| recv_pause:
    "pc f = LoopHead \<Longrightarrow> turn f < turns f \<Longrightarrow> pause b = v # vs \<Longrightarrow>
     Process_step (b, f) (RecvPause v)
       (b\<lparr>pause := vs, isPaused := v\<rparr>, f\<lparr>pc := (if v then AwaitResume else LoopHead)\<rparr>)"
| recv_resume:
    "pc f = AwaitResume \<Longrightarrow> pause b = v # vs \<Longrightarrow>
     Process_step (b, f) (RecvResume v) (b\<lparr>pause := vs\<rparr>, f\<lparr>pc := LoopHead\<rparr>)"
| recv_quit:
    "pc f = LoopHead \<Longrightarrow> turn f < turns f \<Longrightarrow> quit b = v # vs \<Longrightarrow>
     Process_step (b, f) RecvQuit (b\<lparr>quit := vs\<rparr>, f\<lparr>pc := Returned\<rparr>)"
| compute:
    "pc f = LoopHead \<Longrightarrow> turn f < turns f \<Longrightarrow> pause b = [] \<Longrightarrow> quit b = [] \<Longrightarrow>
     \<not> isPaused b \<Longrightarrow> update_World (addresses b) (world f) = Inr world' \<Longrightarrow>
     Process_step (b, f) Compute
       (b\<lparr>BrokerService.Turns := BrokerService.Turns b + 1,
          BrokerService.CellsCount := int (length (alive world')),
          BrokerService.World := world'\<rparr>,
        f\<lparr>world := world', turn := turn f + 1\<rparr>)"
| panic:
    "pc f = LoopHead \<Longrightarrow> turn f < turns f \<Longrightarrow> pause b = [] \<Longrightarrow> quit b = [] \<Longrightarrow>
     \<not> isPaused b \<Longrightarrow> update_World (addresses b) (world f) = Inl e \<Longrightarrow>
     Process_step (b, f) (Panic e) (b, f\<lparr>pc := Panicked e\<rparr>)"
| idle:
    "pc f = LoopHead \<Longrightarrow> turn f < turns f \<Longrightarrow> pause b = [] \<Longrightarrow> quit b = [] \<Longrightarrow>
     isPaused b \<Longrightarrow> Process_step (b, f) Idle (b, f)"

code_pred Process_step .

section \<open>The turn and the quit request, statement by statement\<close>

text \<open>
  The handlers run concurrently with the run loop and nothing synchronises their accesses to
  the session. \<open>fine_step\<close> takes the \<open>default\<close> branch of the loop apart into its statements (the
  call of \<open>World.update\<close>, \<open>b.Turns++\<close>, the assignment to \<open>b.CellsCount\<close>, the assignment to
  \<open>b.World\<close>, \<open>turn++\<close>) and one activation of \<open>Quit\<close> into its own (the read of \<open>b.Turns\<close> into
  the response, the three resets, the send, the return), and lets either side take the next
  statement. Every other step of the loop is a step of \<open>Process_step\<close>. The send of \<open>Quit\<close> is
  complete, and the handler returns, once the loop has received its value.
\<close>

datatype turn_stage = Selecting | Updating | WriteTurns | WriteCellsCount | WriteWorld | AdvanceTurn

datatype quit_stage = NoQuit | ReadTurns | ResetTurns | ResetCellsCount | ResetWorld | Send
  | Blocked | QuitReturned

record system =
  session :: BrokerService
  run :: frame
  \<comment> \<open>where the activation of \<open>Process\<close> is inside the \<open>default\<close> branch\<close>
  stage :: turn_stage
  \<comment> \<open>where the activation of \<open>Quit\<close> is, and its response\<close>
  quit_call :: quit_stage
  quit_res :: BrokerQuitResponse

inductive fine_step :: "system \<Rightarrow> system \<Rightarrow> bool" where
  loop_other:
    "stage s = Selecting \<Longrightarrow> Process_step (session s, run s) a (b', f') \<Longrightarrow>
     a \<noteq> Compute \<Longrightarrow> (\<forall>e. a \<noteq> Panic e) \<Longrightarrow>
     fine_step s (s\<lparr>session := b', run := f'\<rparr>)"
| loop_default:
    "stage s = Selecting \<Longrightarrow> pc (run s) = LoopHead \<Longrightarrow> turn (run s) < turns (run s) \<Longrightarrow>
     pause (session s) = [] \<Longrightarrow> quit (session s) = [] \<Longrightarrow> \<not> isPaused (session s) \<Longrightarrow>
     fine_step s (s\<lparr>stage := Updating\<rparr>)"
| loop_update:
    "stage s = Updating \<Longrightarrow>
     update_World (addresses (session s)) (world (run s)) = Inr world' \<Longrightarrow>
     fine_step s (s\<lparr>run := (run s)\<lparr>world := world'\<rparr>, stage := WriteTurns\<rparr>)"
| loop_panic:
    "stage s = Updating \<Longrightarrow>
     update_World (addresses (session s)) (world (run s)) = Inl e \<Longrightarrow>
     fine_step s (s\<lparr>run := (run s)\<lparr>pc := Panicked e\<rparr>, stage := Selecting\<rparr>)"
| loop_turns:
    "stage s = WriteTurns \<Longrightarrow>
     fine_step s
       (s\<lparr>session := (session s)\<lparr>BrokerService.Turns := BrokerService.Turns (session s) + 1\<rparr>,
          stage := WriteCellsCount\<rparr>)"
| loop_count:
    "stage s = WriteCellsCount \<Longrightarrow>
     fine_step s
       (s\<lparr>session := (session s)\<lparr>BrokerService.CellsCount := int (length (alive (world (run s))))\<rparr>,
          stage := WriteWorld\<rparr>)"
| loop_world:
    "stage s = WriteWorld \<Longrightarrow>
     fine_step s
       (s\<lparr>session := (session s)\<lparr>BrokerService.World := world (run s)\<rparr>,
          stage := AdvanceTurn\<rparr>)"
| loop_turn:
    "stage s = AdvanceTurn \<Longrightarrow>
     fine_step s (s\<lparr>run := (run s)\<lparr>turn := turn (run s) + 1\<rparr>, stage := Selecting\<rparr>)"
| quit_arrives:
    "quit_call s = NoQuit \<Longrightarrow> fine_step s (s\<lparr>quit_call := ReadTurns\<rparr>)"
| quit_read:
    "quit_call s = ReadTurns \<Longrightarrow>
     fine_step s
       (s\<lparr>quit_res := \<lparr>BrokerQuitResponse.Turns = BrokerService.Turns (session s)\<rparr>,
          quit_call := ResetTurns\<rparr>)"
| quit_turns:
    "quit_call s = ResetTurns \<Longrightarrow>
     fine_step s (s\<lparr>session := (session s)\<lparr>BrokerService.Turns := 0\<rparr>,
                    quit_call := ResetCellsCount\<rparr>)"
| quit_count:
    "quit_call s = ResetCellsCount \<Longrightarrow>
     fine_step s (s\<lparr>session := (session s)\<lparr>BrokerService.CellsCount := 0\<rparr>,
                    quit_call := ResetWorld\<rparr>)"
| quit_world:
    "quit_call s = ResetWorld \<Longrightarrow>
     fine_step s (s\<lparr>session := (session s)\<lparr>BrokerService.World := zero_World\<rparr>,
                    quit_call := Send\<rparr>)"
| quit_send:
    "quit_call s = Send \<Longrightarrow>
     fine_step s (s\<lparr>session := (session s)\<lparr>quit := quit (session s) @ [True]\<rparr>,
                    quit_call := Blocked\<rparr>)"
| quit_return:
    "quit_call s = Blocked \<Longrightarrow> quit (session s) = [] \<Longrightarrow>
     fine_step s (s\<lparr>quit_call := QuitReturned\<rparr>)"

section \<open>Reference definitions for the proofs\<close>

text \<open>
  What the loops of the code compute, written without loops and without failure. The lemmas
  below prove that the code computes these values on well-formed input.
\<close>

definition band_start :: "int \<Rightarrow> int \<Rightarrow> int \<Rightarrow> int" where
  \<comment> \<open>\<open>start\<close> in \<open>region\<close>, for height \<open>H\<close>, \<open>n\<close> workers and worker \<open>w\<close>\<close>
  "band_start H n w = w * (H div n)"

definition band_end :: "int \<Rightarrow> int \<Rightarrow> int \<Rightarrow> int" where
  \<comment> \<open>\<open>end\<close> in \<open>region\<close>\<close>
  "band_end H n w = (if w = n - 1 then H else (w + 1) * (H div n))"

definition spec_alive :: "int \<Rightarrow> Cell list \<Rightarrow> int \<Rightarrow> int" where
  \<comment> \<open>1 when the cell of \<open>row\<close> at column \<open>x\<close>, wrapped modulo the width, is alive\<close>
  "spec_alive W row x = (if Alive (row ! nat (x mod W)) then 1 else 0)"

definition spec_neighbours :: "int \<Rightarrow> Cell list \<Rightarrow> Cell list \<Rightarrow> Cell list \<Rightarrow> int \<Rightarrow> int" where
  \<comment> \<open>the alive neighbours of the cell at column \<open>x\<close> of \<open>cur\<close>, in the order the worker visits them\<close>
  "spec_neighbours W up cur down x =
     spec_alive W up (x - 1) + spec_alive W cur (x - 1) + spec_alive W down (x - 1)
   + spec_alive W up x + spec_alive W down x
   + spec_alive W up (x + 1) + spec_alive W cur (x + 1) + spec_alive W down (x + 1)"

definition spec_rule :: "int \<Rightarrow> bool \<Rightarrow> bool" where
  "spec_rule n a = (if n < 2 \<or> n > 3 then False else if n = 3 then True else a)"

definition spec_cell :: "int \<Rightarrow> Cell list \<Rightarrow> Cell list \<Rightarrow> Cell list \<Rightarrow> int \<Rightarrow> Cell" where
  \<comment> \<open>the next state of the cell at column \<open>x\<close> of \<open>cur\<close>, between the rows \<open>up\<close> and \<open>down\<close>\<close>
  "spec_cell W up cur down x =
     (cur ! nat x)\<lparr>Alive := spec_rule (spec_neighbours W up cur down x) (Alive (cur ! nat x))\<rparr>"

definition spec_row :: "int \<Rightarrow> Cell list \<Rightarrow> Cell list \<Rightarrow> Cell list \<Rightarrow> Cell list" where
  "spec_row W up cur down = map (\<lambda>x. spec_cell W up cur down (int x)) [0..<nat W]"

definition spec_band :: "int \<Rightarrow> Cell list list \<Rightarrow> nat \<Rightarrow> Cell list list" where
  \<comment> \<open>the next state of rows \<open>1 .. h\<close> of the row array \<open>F\<close>\<close>
  "spec_band W F h = map (\<lambda>k. spec_row W (F ! k) (F ! Suc k) (F ! Suc (Suc k))) [0..<h]"

definition wf_Region :: "Region \<Rightarrow> bool" where
  \<comment> \<open>the band's rows and the two halo rows, each \<open>Width\<close> cells long\<close>
  "wf_Region rg \<longleftrightarrow>
     0 \<le> Region.Height rg \<and> 0 \<le> Region.Width rg \<and>
     int (length (Region.Field rg)) = Region.Height rg + 2 \<and>
     (\<forall>row \<in> set (Region.Field rg). int (length row) = Region.Width rg)"

definition wf_World :: "World \<Rightarrow> bool" where
  \<comment> \<open>the grid invariant: \<open>Height\<close> rows, each \<open>Width\<close> cells long\<close>
  "wf_World wd \<longleftrightarrow>
     int (length (Data (World.Field wd))) = World.Height wd \<and>
     (\<forall>row \<in> set (Data (World.Field wd)). int (length row) = World.Width wd)"

definition spec_generation :: "World \<Rightarrow> Cell list list" where
  \<comment> \<open>the next state of the whole grid, rows wrapped modulo the height\<close>
  "spec_generation wd =
     (let h = nat (World.Height wd); D = Data (World.Field wd) in
      map (\<lambda>y. spec_row (World.Width wd) (D ! ((y + h - 1) mod h)) (D ! y) (D ! ((y + 1) mod h)))
        [0..<h])"

section \<open>Example worlds\<close>

definition world_of :: "bool list list \<Rightarrow> World" where
  \<comment> \<open>the World that the client builds from an image: the cell at \<open>(x, y)\<close> carries its
      coordinates\<close>
  "world_of pixels =
     (let h = int (length pixels);
          w = (case pixels of [] \<Rightarrow> 0 | row # _ \<Rightarrow> int (length row));
          data = map (\<lambda>(y, row). map (\<lambda>(x, a). \<lparr>Cell.X = int x, Y = int y, Alive = a\<rparr>)
                                        (enumerate 0 row)) (enumerate 0 pixels)
      in \<lparr>World.Field = \<lparr>Data = data, Field.Height = h, Field.Width = w\<rparr>,
          Height = h, Width = w\<rparr>)"

definition glider :: World where
  "glider = world_of [[False, True, False, False],
                      [False, False, True, False],
                      [True, True, True, False],
                      [False, False, False, False]]"

definition blinker_region :: Region where
  \<comment> \<open>a band of one row between its two halo rows, three cells wide\<close>
  "blinker_region =
     \<lparr>Region.Field =
        [[\<lparr>Cell.X = 0, Y = 2, Alive = False\<rparr>, \<lparr>Cell.X = 1, Y = 2, Alive = True\<rparr>,
          \<lparr>Cell.X = 2, Y = 2, Alive = False\<rparr>],
         [\<lparr>Cell.X = 0, Y = 0, Alive = False\<rparr>, \<lparr>Cell.X = 1, Y = 0, Alive = True\<rparr>,
          \<lparr>Cell.X = 2, Y = 0, Alive = False\<rparr>],
         [\<lparr>Cell.X = 0, Y = 1, Alive = False\<rparr>, \<lparr>Cell.X = 1, Y = 1, Alive = True\<rparr>,
          \<lparr>Cell.X = 2, Y = 1, Alive = False\<rparr>]],
      Start = 0, End = 1, Height = 1, Width = 3\<rparr>"

definition tiny :: World where
  \<comment> \<open>one row of one alive cell\<close>
  "tiny = world_of [[True]]"

definition glider_request :: BrokerProcessRequest where
  "glider_request = \<lparr>BrokerProcessRequest.Turns = 2, World = glider\<rparr>"

definition tiny_request :: BrokerProcessRequest where
  "tiny_request = \<lparr>BrokerProcessRequest.Turns = 1, World = tiny\<rparr>"

definition next_World :: "World \<Rightarrow> World" where
  \<comment> \<open>the World with the grid of the next generation\<close>
  "next_World wd = wd\<lparr>World.Field := (World.Field wd)\<lparr>Data := spec_generation wd\<rparr>\<rparr>"

definition after_turn :: "BrokerService \<Rightarrow> World \<Rightarrow> BrokerService" where
  \<comment> \<open>the session after a turn of the run loop that produced \<open>wd\<close>\<close>
  "after_turn b wd =
     b\<lparr>BrokerService.Turns := BrokerService.Turns b + 1,
       BrokerService.CellsCount := int (length (alive wd)),
       BrokerService.World := wd\<rparr>"

definition both_pending :: BrokerService where
  \<comment> \<open>the session in which a pause request and then a quit request wait for the run loop\<close>
  "both_pending = snd (Quit (snd (Pause main_BrokerService)))"

definition start :: system where
  \<comment> \<open>a run of two turns on the glider begins; no quit request yet\<close>
  "start = \<lparr>session = main_BrokerService, run = Process_begin glider_request,
            stage = Selecting, quit_call = NoQuit,
            quit_res = \<lparr>BrokerQuitResponse.Turns = 0\<rparr>\<rparr>"

definition mid_turn :: system where
  \<comment> \<open>the first turn has assigned \<open>Turns\<close> and \<open>CellsCount\<close>, not yet \<open>World\<close>\<close>
  "mid_turn =
     \<lparr>session = main_BrokerService\<lparr>BrokerService.Turns := 1,
        BrokerService.CellsCount := int (length (alive (next_World glider)))\<rparr>,
      run = (Process_begin glider_request)\<lparr>world := next_World glider\<rparr>,
      stage = WriteWorld, quit_call = NoQuit,
      quit_res = \<lparr>BrokerQuitResponse.Turns = 0\<rparr>\<rparr>"

definition quit_in_flight :: system where
  \<comment> \<open>a quit request that arrived during the first turn has returned\<close>
  "quit_in_flight =
     \<lparr>session = (after_turn (snd (Quit main_BrokerService)) (next_World glider))\<lparr>quit := []\<rparr>,
      run = (Process_begin glider_request)\<lparr>world := next_World glider, turn := 1, pc := Returned\<rparr>,
      stage = Selecting, quit_call = QuitReturned,
      quit_res = \<lparr>BrokerQuitResponse.Turns = 0\<rparr>\<rparr>"

definition torn :: system where
  \<comment> \<open>a quit request that ran between the assignments of \<open>mid_turn\<close> has returned\<close>
  "torn =
     \<lparr>session = (snd (Quit (session mid_turn)))\<lparr>BrokerService.World := next_World glider, quit := []\<rparr>,
      run = (Process_begin glider_request)\<lparr>world := next_World glider, turn := 1, pc := Returned\<rparr>,
      stage = Selecting, quit_call = QuitReturned,
      quit_res = \<lparr>BrokerQuitResponse.Turns = 1\<rparr>\<rparr>"

section \<open>The rule in the specification's words\<close>

definition neighbour_offsets :: "(int \<times> int) list" where
  \<comment> \<open>the eight surrounding positions as (row offset, column offset); \<open>(0, 0)\<close> is left out\<close>
  "neighbour_offsets =
     [(- 1, - 1), (- 1, 0), (- 1, 1), (0, - 1), (0, 1), (1, - 1), (1, 0), (1, 1)]"

definition alive_neighbour_count :: "Cell list list \<Rightarrow> int \<Rightarrow> int \<Rightarrow> int \<Rightarrow> int" where
  \<comment> \<open>the alive cells among the eight neighbours of the cell at row \<open>y\<close>, column \<open>x\<close> of a row
      array: rows taken as they are, columns wrapped modulo the width\<close>
  "alive_neighbour_count F W y x =
     int (length (filter (\<lambda>(dy, dx). Alive (F ! nat (y + dy) ! nat ((x + dx) mod W)))
                    neighbour_offsets))"

definition alive_cells :: "World \<Rightarrow> nat" where
  \<comment> \<open>the number of cells of the grid whose \<open>Alive\<close> flag is set\<close>
  "alive_cells wd = length (filter Alive (concat (Data (World.Field wd))))"

section \<open>Loops and slices\<close>

lemma bindE_Inr [simp]: "bindE (Inr v) f = f v"
  by (simp add: bindE_def)

lemma bindE_Inl [simp]: "bindE (Inl e) f = Inl e"
  by (simp add: bindE_def)

lemma index_in_range: "0 \<le> i \<Longrightarrow> i < int (length s) \<Longrightarrow> index s i = Inr (s ! nat i)"
  by (simp add: index_def)

lemma store_in_range: "0 \<le> i \<Longrightarrow> i < int (length s) \<Longrightarrow> store s i v = Inr (s[nat i := v])"
  by (simp add: store_def)

lemma for_loop_done: "n \<le> i \<Longrightarrow> for_loop i n body s = Inr s"
  by (subst for_loop.simps) simp

lemma for_loop_step:
  "i < n \<Longrightarrow> for_loop i n body s = bindE (body i s) (for_loop (i + 1) n body)"
  by (subst for_loop.simps) (simp add: bindE_def)

lemma for_loop_inv:
  assumes "i \<le> n" and "P i s"
    and step: "\<And>k t. i \<le> k \<Longrightarrow> k < n \<Longrightarrow> P k t \<Longrightarrow> \<exists>t'. body k t = Inr t' \<and> P (k + 1) t'"
  shows "\<exists>t'. for_loop i n body s = Inr t' \<and> P n t'"
  using assms
proof (induction "nat (n - i)" arbitrary: i s)
  case 0
  then have "i = n" by simp
  with 0 show ?case by (simp add: for_loop_done)
next
  case (Suc m)
  then have lt: "i < n" by simp
  from Suc.prems(3)[OF order_refl lt Suc.prems(2)] obtain t' where
    b: "body i s = Inr t'" and p: "P (i + 1) t'" by blast
  have m: "m = nat (n - (i + 1))" using Suc.hyps(2) by simp
  have "\<exists>u. for_loop (i + 1) n body t' = Inr u \<and> P n u"
  proof (rule Suc.hyps(1)[OF m _ p])
    show "i + 1 \<le> n" using lt by simp
  next
    fix k t assume "i + 1 \<le> k" "k < n" "P k t"
    then show "\<exists>t'. body k t = Inr t' \<and> P (k + 1) t'"
      using Suc.prems(3)[of k t] by simp
  qed
  then show ?case using lt b by (simp add: for_loop_step)
qed

lemma copy_loop:
  assumes s: "0 \<le> s" and rh: "0 \<le> rh" and len: "s + rh \<le> int (length D)"
  shows "for_le 1 rh (\<lambda>row data. bindE (index D (s + row - 1)) (\<lambda>r. store data row r))
           (up # replicate (nat rh + 1) z)
         = Inr (up # map (\<lambda>j. D ! (nat s + j)) [0..<nat rh] @ [z])"
proof -
  let ?f = "\<lambda>j. D ! (nat s + j)"
  let ?P = "\<lambda>k data. data = up # map ?f [0..<nat (k - 1)] @ replicate (nat (rh + 2 - k)) z"
  let ?body = "\<lambda>row data. bindE (index D (s + row - 1)) (\<lambda>r. store data row r)"
  have "\<exists>t'. for_loop 1 (rh + 1) ?body (up # replicate (nat rh + 1) z) = Inr t' \<and> ?P (rh + 1) t'"
  proof (rule for_loop_inv[where P="?P"])
    show "1 \<le> rh + 1" using rh by simp
    show "?P 1 (up # replicate (nat rh + 1) z)" using rh by (simp add: nat_add_distrib)
  next
    fix k t
    assume k1: "1 \<le> k" and k2: "k < rh + 1" and P: "?P k t"
    define j where "j = nat (k - 1)"
    define r where "r = nat (rh - k)"
    have kj: "k = int j + 1" using k1 by (simp add: j_def)
    have rr: "nat (rh + 2 - k) = Suc (Suc r)" "nat (rh + 2 - (k + 1)) = Suc r"
      using k2 by (simp_all add: r_def)
    have t: "t = up # map ?f [0..<j] @ replicate (Suc (Suc r)) z"
      using P rr by (simp add: j_def)
    have i1: "index D (s + k - 1) = Inr (?f j)"
      using s k1 k2 len by (simp add: index_in_range kj nat_add_distrib)
    have lt: "length t = Suc j + Suc (Suc r)" by (simp add: t)
    have nk: "nat k = Suc j" using kj by simp
    have i2: "store t k (?f j) = Inr (t[Suc j := ?f j])"
      unfolding store_def using lt kj nk by simp
    have "t[Suc j := ?f j] = up # map ?f [0..<Suc j] @ replicate (Suc r) z"
      by (simp add: t list_update_append)
    moreover have "nat (k + 1 - 1) = Suc j" using kj by simp
    ultimately show "\<exists>t'. ?body k t = Inr t' \<and> ?P (k + 1) t'"
      using i1 i2 rr(2) by (simp del: upt_Suc)
  qed
  then show ?thesis using rh by (simp add: for_le_def)
qed

lemma sdiv_nonneg: "0 \<le> a \<Longrightarrow> 0 < b \<Longrightarrow> a sdiv b = a div (b::int)"
  by (simp add: signed_divide_int_def sgn_if)

lemma smod_nonneg: "0 \<le> a \<Longrightarrow> 0 < b \<Longrightarrow> a smod b = a mod (b::int)"
  by (simp add: signed_modulo_int_def sgn_if)

lemma band_bounds:
  assumes "0 \<le> H" "0 \<le> w" "w < n"
  shows "0 \<le> band_start H n w" "band_start H n w \<le> band_end H n w" "band_end H n w \<le> H"
proof -
  have n: "0 < n" using assms by simp
  have bh: "0 \<le> H div n" using assms n by (simp add: pos_imp_zdiv_nonneg_iff)
  have nb: "n * (H div n) \<le> H" using n
    using mult_div_mod_eq [of n H] pos_mod_sign [of n H] by linarith
  show "0 \<le> band_start H n w" using assms bh by (simp add: band_start_def)
  have "(w + 1) * (H div n) \<le> n * (H div n)"
    using assms bh by (intro mult_right_mono) simp_all
  then have e: "(w + 1) * (H div n) \<le> H" using nb by simp
  have "w * (H div n) \<le> (w + 1) * (H div n)" using bh by (simp add: distrib_right)
  then have "w * (H div n) \<le> H \<and> w * (H div n) \<le> (w + 1) * (H div n)" using e by simp
  then show "band_start H n w \<le> band_end H n w"
    unfolding band_start_def band_end_def by (cases "w = n - 1") simp_all
  show "band_end H n w \<le> H" using e by (simp add: band_end_def)
qed

lemma region_ok:
  assumes len: "int (length (Data (World.Field wd))) = World.Height wd"
    and H: "1 \<le> World.Height wd" and w: "0 \<le> w" "w < n"
  shows "region wd w n =
     Inr \<lparr>Region.Field =
            Data (World.Field wd) ! nat ((band_start (World.Height wd) n w - 1 + World.Height wd) mod World.Height wd)
            # map (\<lambda>j. Data (World.Field wd) ! (nat (band_start (World.Height wd) n w) + j))
                [0..<nat (band_end (World.Height wd) n w - band_start (World.Height wd) n w)]
            @ [Data (World.Field wd) ! nat (band_end (World.Height wd) n w mod World.Height wd)],
          Start = band_start (World.Height wd) n w,
          End = band_end (World.Height wd) n w,
          Height = band_end (World.Height wd) n w - band_start (World.Height wd) n w,
          Width = World.Width wd\<rparr>"
proof -
  define Hh where "Hh = World.Height wd"
  define D where "D = Data (World.Field wd)"
  define s where "s = band_start Hh n w"
  define e where "e = band_end Hh n w"
  have n: "0 < n" using w by simp
  have H0: "0 \<le> Hh" "0 < Hh" "Hh \<noteq> 0" using H by (simp_all add: Hh_def)
  have b: "0 \<le> s" "s \<le> e" "e \<le> Hh"
    using band_bounds[OF H0(1) w] by (simp_all add: s_def e_def)
  have lenD: "int (length D) = Hh" using len by (simp add: D_def Hh_def)
  have d: "go_div Hh n = Inr (Hh div n)"
    using n H0 by (simp add: go_div_def sdiv_nonneg)
  have r1: "go_rem e Hh = Inr (e mod Hh)"
    using b H0 by (simp add: go_rem_def smod_nonneg)
  have r2: "go_rem (s - 1 + Hh) Hh = Inr ((s - 1 + Hh) mod Hh)"
    using b H0 by (simp add: go_rem_def smod_nonneg)
  have m: "make_slice (e - s + 2) ([]::Cell list) = Inr (replicate (nat (e - s) + 2) [])"
    using b by (simp add: make_slice_def nat_add_distrib)
  have i1: "index D ((s - 1 + Hh) mod Hh) = Inr (D ! nat ((s - 1 + Hh) mod Hh))"
    using H0 lenD by (simp add: index_in_range)
  have i2: "index D (e mod Hh) = Inr (D ! nat (e mod Hh))"
    using H0 lenD by (simp add: index_in_range)
  have st1: "store (replicate (nat (e - s) + 2) []) 0 up = Inr (up # replicate (nat (e - s) + 1) [])" for up :: "Cell list"
    by (simp add: store_def)
  have cp: "for_le 1 (e - s) (\<lambda>row data. bindE (index D (s + row - 1)) (\<lambda>r. store data row r))
           (up # replicate (nat (e - s) + 1) [])
         = Inr (up # map (\<lambda>j. D ! (nat s + j)) [0..<nat (e - s)] @ [[]])" for up
    using b lenD by (intro copy_loop) simp_all
  have st2: "store (up # map (\<lambda>j. D ! (nat s + j)) [0..<nat (e - s)] @ [[]]) (e - s + 1) down
      = Inr (up # map (\<lambda>j. D ! (nat s + j)) [0..<nat (e - s)] @ [down])" for up down
    using b by (simp add: store_def nat_add_distrib list_update_append)
  have se: "s = w * (Hh div n)" "e = (if w = n - 1 then Hh else (w + 1) * (Hh div n))"
    by (simp_all add: s_def e_def band_start_def band_end_def)
  show ?thesis
    unfolding region_def Hh_def[symmetric] D_def[symmetric] s_def[symmetric] e_def[symmetric]
    by (simp only: d bindE_Inr Let_def se[symmetric] r1 r2 m i1 i2 st1 cp st2)
qed

lemma for_le_3:
  "for_le (- 1) 1 body s = bindE (body (- 1) s) (\<lambda>s1. bindE (body 0 s1) (\<lambda>s2. body 1 s2))"
proof -
  have a: "for_loop 2 2 body t = Inr t" for t by (simp add: for_loop_done)
  have b: "for_loop 1 2 body t = body 1 t" for t
    by (simp add: for_loop_step a bindE_def split: sum.splits)
  have c: "for_loop 0 2 body t = bindE (body 0 t) (\<lambda>s2. body 1 s2)" for t
    using for_loop_step[of 0 2 body t] b by (simp add: bindE_def split: sum.splits)
  have d: "for_loop (- 1) 2 body t = bindE (body (- 1) t) (for_loop 0 2 body)" for t
    using for_loop_step[of "- 1" 2 body t] by simp
  show ?thesis unfolding for_le_def by (simp add: d c cong: sum.case_cong)
       (simp add: bindE_def c split: sum.splits)
qed

lemma aliveNeighbours_ok:
  assumes y: "1 \<le> y" "y + 1 < int (length (Region.Field rg))"
    and x: "0 \<le> x" "x < Region.Width rg"
    and rows: "int (length (Region.Field rg ! nat (y - 1))) = Region.Width rg"
      "int (length (Region.Field rg ! nat y)) = Region.Width rg"
      "int (length (Region.Field rg ! nat (y + 1))) = Region.Width rg"
  shows "aliveNeighbours rg y x =
     Inr (spec_neighbours (Region.Width rg) (Region.Field rg ! nat (y - 1))
            (Region.Field rg ! nat y) (Region.Field rg ! nat (y + 1)) x)"
proof -
  define W where "W = Region.Width rg"
  define F where "F = Region.Field rg"
  have W: "0 < W" using x by (simp add: W_def)
  have rem: "go_rem (x + i + W) W = Inr ((x + i) mod W)" if "- 1 \<le> i" for i
    using that x W by (simp add: go_rem_def smod_nonneg W_def)
  have iy: "index F (y + j) = Inr (F ! nat (y + j))" if "- 1 \<le> j" "j \<le> 1" for j
    using that y by (simp add: index_def F_def)
  have ix: "index (F ! nat (y + j)) (k mod W) = Inr (F ! nat (y + j) ! nat (k mod W))"
    if "j = - 1 \<or> j = 0 \<or> j = 1" for j k
    using that rows W by (auto simp add: index_def F_def W_def)
  have cell: "bindE (go_rem (x + i + W) W) (\<lambda>wx. bindE (index F (y + j)) (\<lambda>row. bindE (index row wx)
                (\<lambda>c. Inr (if Alive c then n + 1 else n))))
              = Inr (n + spec_alive W (F ! nat (y + j)) (x + i))"
    if "i = - 1 \<or> i = 0 \<or> i = 1" "j = - 1 \<or> j = 0 \<or> j = 1" for i j n
  proof -
    have "- 1 \<le> i" "- 1 \<le> j" "j \<le> 1" using that by auto
    then show ?thesis using that(2) by (simp add: rem iy ix spec_alive_def)
  qed
  show ?thesis
    unfolding aliveNeighbours_def for_le_3 W_def[symmetric] F_def[symmetric] Let_def
    using cell[of "- 1" "- 1"] cell[of "- 1" 0] cell[of "- 1" 1]
      cell[of 0 "- 1"] cell[of 0 1] cell[of 1 "- 1"] cell[of 1 0] cell[of 1 1] rem[of 0]
    by (simp add: spec_neighbours_def)
qed

lemma nextCell_ok:
  assumes y: "1 \<le> y" "y + 1 < int (length (Region.Field rg))"
    and x: "0 \<le> x" "x < Region.Width rg"
    and rows: "int (length (Region.Field rg ! nat (y - 1))) = Region.Width rg"
      "int (length (Region.Field rg ! nat y)) = Region.Width rg"
      "int (length (Region.Field rg ! nat (y + 1))) = Region.Width rg"
  shows "nextCell rg y x =
     Inr (spec_cell (Region.Width rg) (Region.Field rg ! nat (y - 1))
            (Region.Field rg ! nat y) (Region.Field rg ! nat (y + 1)) x)"
proof -
  have i1: "index (Region.Field rg) y = Inr (Region.Field rg ! nat y)"
    using y by (simp add: index_def)
  have i2: "index (Region.Field rg ! nat y) x = Inr (Region.Field rg ! nat y ! nat x)"
    using x rows by (simp add: index_def)
  show ?thesis
    unfolding nextCell_def
    by (simp add: i1 i2 aliveNeighbours_ok[OF assms] Let_def spec_cell_def spec_rule_def)
qed

lemma cultivate_ok:
  assumes "0 \<le> H" "0 \<le> W"
  shows "cultivate H W = Inr (replicate (nat H) (replicate (nat W) zero_Cell))"
proof -
  let ?row = "replicate (nat W) zero_Cell"
  let ?body = "\<lambda>i land. bindE (make_slice W zero_Cell) (\<lambda>row. store land i row)"
  let ?P = "\<lambda>k land. land = replicate (nat k) ?row @ replicate (nat (H - k)) []"
  have "\<exists>t'. for_loop 0 H ?body (replicate (nat H) []) = Inr t' \<and> ?P H t'"
  proof (rule for_loop_inv[where P="?P"])
    show "0 \<le> H" by fact
    show "?P 0 (replicate (nat H) [])" by simp
  next
    fix k t assume k: "0 \<le> k" "k < H" and P: "?P k t"
    have r: "nat (H - k) = Suc (nat (H - (k + 1)))" using k by simp
    have n: "nat (k + 1) = Suc (nat k)" using k by simp
    have t: "t = replicate (nat k) ?row @ [] # replicate (nat (H - (k + 1))) []"
      using P r by simp
    have "store t k ?row = Inr (replicate (nat k) ?row @ ?row # replicate (nat (H - (k + 1))) [])"
      using k by (simp add: store_def t list_update_append)
    then show "\<exists>t'. ?body k t = Inr t' \<and> ?P (k + 1) t'"
      using assms(2) n by (simp add: make_slice_def replicate_append_same)
  qed
  then show ?thesis using assms by (simp add: cultivate_def make_slice_def)
qed

lemma row_loop:
  assumes y: "1 \<le> y" "y + 1 < int (length (Region.Field rg))"
    and rows: "int (length (Region.Field rg ! nat (y - 1))) = Region.Width rg"
      "int (length (Region.Field rg ! nat y)) = Region.Width rg"
      "int (length (Region.Field rg ! nat (y + 1))) = Region.Width rg"
    and W: "0 \<le> Region.Width rg"
    and d: "nat (y - 1) < length data" "int (length (data ! nat (y - 1))) = Region.Width rg"
  shows "for_loop 0 (Region.Width rg)
           (\<lambda>x data. bindE (nextCell rg y x) (\<lambda>c. store2 data (y - DefaultHaloOffset) x c)) data
         = Inr (data[nat (y - 1) := spec_row (Region.Width rg) (Region.Field rg ! nat (y - 1))
            (Region.Field rg ! nat y) (Region.Field rg ! nat (y + 1))])"
proof -
  define k where "k = nat (y - 1)"
  define r where "r = data ! k"
  define f where "f = (\<lambda>x. spec_cell (Region.Width rg) (Region.Field rg ! nat (y - 1))
            (Region.Field rg ! nat y) (Region.Field rg ! nat (y + 1)) (int x))"
  let ?body = "\<lambda>x data. bindE (nextCell rg y x) (\<lambda>c. store2 data (y - DefaultHaloOffset) x c)"
  let ?P = "\<lambda>x d. d = data[k := map f [0..<nat x] @ drop (nat x) r]"
  have yk: "y - 1 = int k" using y by (simp add: k_def)
  have lr: "int (length r) = Region.Width rg" using d by (simp add: r_def k_def)
  have "\<exists>t'. for_loop 0 (Region.Width rg) ?body data = Inr t' \<and> ?P (Region.Width rg) t'"
  proof (rule for_loop_inv[where P="?P"])
    show "0 \<le> Region.Width rg" by fact
    show "?P 0 data" by (simp add: r_def)
  next
    fix x t assume x: "0 \<le> x" "x < Region.Width rg" and P: "?P x t"
    define j where "j = nat x"
    have xj: "x = int j" using x by (simp add: j_def)
    have jl: "j < length r" using x lr by (simp add: j_def)
    have kd: "k < length data" using d by (simp add: k_def)
    have t: "t = data[k := map f [0..<j] @ drop j r]" using P by (simp add: j_def)
    have nc: "nextCell rg y x = Inr (f j)"
      using nextCell_ok[OF y x rows] by (simp add: f_def xj)
    have tk: "t ! k = map f [0..<j] @ drop j r" using kd by (simp add: t)
    have up: "(map f [0..<j] @ drop j r)[j := f j] = map f [0..<Suc j] @ drop (Suc j) r"
      using jl by (simp add: list_update_append Cons_nth_drop_Suc[symmetric])
    have "store2 t (y - DefaultHaloOffset) x (f j) = Inr (data[k := map f [0..<Suc j] @ drop (Suc j) r])"
      unfolding store2_def DefaultHaloOffset_def yk
      using kd jl up by (simp add: index_def store_def tk xj) (simp add: t)
    moreover have "nat (x + 1) = Suc j" using x by (simp add: j_def)
    ultimately show "\<exists>t'. ?body x t = Inr t' \<and> ?P (x + 1) t'"
      using nc by (simp del: upt_Suc)
  qed
  moreover have "map f [0..<nat (Region.Width rg)] @ drop (nat (Region.Width rg)) r
     = spec_row (Region.Width rg) (Region.Field rg ! nat (y - 1))
            (Region.Field rg ! nat y) (Region.Field rg ! nat (y + 1))"
    using lr by (simp add: spec_row_def f_def)
  ultimately show ?thesis by (simp add: k_def)
qed

lemma spec_band_Suc:
  "spec_band W F (Suc k) = spec_band W F k @ [spec_row W (F ! k) (F ! Suc k) (F ! Suc (Suc k))]"
  by (simp add: spec_band_def)

lemma length_spec_band [simp]: "length (spec_band W F h) = h"
  by (simp add: spec_band_def)

lemma length_spec_row [simp]: "length (spec_row W up cur down) = nat W"
  by (simp add: spec_row_def)

lemma update_Region_ok:
  assumes wf: "wf_Region rg"
  shows "update_Region rg =
     Inr (rg\<lparr>Region.Field := spec_band (Region.Width rg) (Region.Field rg) (nat (Region.Height rg))\<rparr>)"
proof -
  define H where "H = Region.Height rg"
  define W where "W = Region.Width rg"
  define F where "F = Region.Field rg"
  define z where "z = replicate (nat W) zero_Cell"
  have H: "0 \<le> H" and W: "0 \<le> W" and lenF: "int (length F) = H + 2"
    and rows: "\<And>i. i < length F \<Longrightarrow> int (length (F ! i)) = W"
    using wf by (simp_all add: wf_Region_def H_def W_def F_def)
  let ?inner = "\<lambda>y. for_loop 0 W (\<lambda>x data. bindE (nextCell rg y x)
                   (\<lambda>c. store2 data (y - DefaultHaloOffset) x c))"
  let ?P = "\<lambda>y d. d = spec_band W F (nat (y - 1)) @ replicate (nat (H + 1 - y)) z"
  have "\<exists>t'. for_loop 1 (H + 1) ?inner (replicate (nat H) z) = Inr t' \<and> ?P (H + 1) t'"
  proof (rule for_loop_inv[where P="?P"])
    show "1 \<le> H + 1" using H by simp
    show "?P 1 (replicate (nat H) z)" by (simp add: spec_band_def)
  next
    fix y t assume y: "1 \<le> y" "y < H + 1" and P: "?P y t"
    define k where "k = nat (y - 1)"
    have ny: "nat (y - 1) = k" "nat y = Suc k" "nat (y + 1) = Suc (Suc k)" "nat (y + 1 - 1) = Suc k"
      using y by (simp_all add: k_def)
    have r: "nat (H + 1 - y) = Suc (nat (H + 1 - (y + 1)))" using y by simp
    have t: "t = spec_band W F k @ z # replicate (nat (H + 1 - (y + 1))) z"
      using P r by (simp add: ny)
    have kF: "Suc (Suc k) < length F" using y lenF by (simp add: k_def)
    have "?inner y t = Inr (t[nat (y - 1) := spec_row (Region.Width rg) (Region.Field rg ! nat (y - 1))
            (Region.Field rg ! nat y) (Region.Field rg ! nat (y + 1))])"
      unfolding W_def
    proof (rule row_loop)
      show "1 \<le> y" by fact
      show "y + 1 < int (length (Region.Field rg))" using y lenF by (simp add: F_def)
      show "int (length (Region.Field rg ! nat (y - 1))) = Region.Width rg"
        using rows[of k] kF by (simp add: ny F_def W_def)
      show "int (length (Region.Field rg ! nat y)) = Region.Width rg"
        using rows[of "Suc k"] kF by (simp add: ny F_def W_def)
      show "int (length (Region.Field rg ! nat (y + 1))) = Region.Width rg"
        using rows[of "Suc (Suc k)"] kF by (simp add: ny F_def W_def)
      show "0 \<le> Region.Width rg" using W by (simp add: W_def)
      show "nat (y - 1) < length t" by (simp add: t ny)
      show "int (length (t ! nat (y - 1))) = Region.Width rg"
        using W by (simp add: t ny nth_append z_def W_def)
    qed
    then have "?inner y t = Inr (spec_band W F (Suc k) @ replicate (nat (H + 1 - (y + 1))) z)"
      by (simp add: ny t list_update_append spec_band_Suc F_def W_def)
    then show "\<exists>t'. ?inner y t = Inr t' \<and> ?P (y + 1) t'" by (simp add: ny)
  qed
  then have "for_loop 1 (H + 1) ?inner (replicate (nat H) z) = Inr (spec_band W F (nat H))"
    by simp
  then show ?thesis
    unfolding update_Region_def DefaultHaloOffset_def H_def[symmetric] W_def[symmetric] F_def[symmetric]
    using cultivate_ok[OF H W] by (simp add: z_def DefaultHaloOffset_def)
qed

lemma region_wf:
  assumes wf: "wf_World wd" and H: "1 \<le> World.Height wd" and w: "0 \<le> w" "w < n"
  shows "\<exists>rg. region wd w n = Inr rg \<and> wf_Region rg"
proof -
  define Hh where "Hh = World.Height wd"
  define D where "D = Data (World.Field wd)"
  have len: "int (length D) = Hh" and rows: "\<And>i. i < length D \<Longrightarrow> int (length (D ! i)) = World.Width wd"
    using wf by (simp_all add: wf_World_def D_def Hh_def)
  have b: "0 \<le> band_start Hh n w" "band_start Hh n w \<le> band_end Hh n w" "band_end Hh n w \<le> Hh"
    using band_bounds[of Hh w n] H w by (simp_all add: Hh_def)
  have "0 < length D" using len H by (cases D) (simp_all add: Hh_def)
  then have "int (length (D ! 0)) = World.Width wd" by (rule rows)
  then have W: "0 \<le> World.Width wd" by linarith
  have i1: "nat ((band_start Hh n w - 1 + Hh) mod Hh) < length D"
    using len H by (simp add: Hh_def nat_less_iff)
  have i2: "nat (band_end Hh n w mod Hh) < length D"
    using len H by (simp add: Hh_def nat_less_iff)
  have i3: "nat (band_start Hh n w) + j < length D" if "j < nat (band_end Hh n w - band_start Hh n w)" for j
    using that b len by linarith
  show ?thesis
    using region_ok[OF _ H w, folded Hh_def D_def] len[unfolded D_def Hh_def] b W
      rows[OF i1] rows[OF i2] rows[OF i3]
    by (auto simp add: wf_Region_def Hh_def D_def)
qed

lemma halo_rows:
  fixes D :: "'a list"
  assumes h: "1 \<le> h" and se: "sn + m \<le> h" and k: "k < m"
  defines "F \<equiv> D ! nat ((int sn - 1 + int h) mod int h) # map (\<lambda>j. D ! (sn + j)) [0..<m]
                 @ [D ! nat (int (sn + m) mod int h)]"
  shows "F ! k = D ! ((sn + k + h - 1) mod h)"
    and "F ! Suc k = D ! (sn + k)"
    and "F ! Suc (Suc k) = D ! ((sn + k + 1) mod h)"
proof -
  have up: "nat ((int sn - 1 + int h) mod int h) = (sn + h - 1) mod h"
  proof -
    have "int sn - 1 + int h = int (sn + h - 1)" using h by simp
    then show ?thesis by (simp only: zmod_int[symmetric] nat_int)
  qed
  have down: "nat (int (sn + m) mod int h) = (sn + m) mod h"
    by (simp only: zmod_int[symmetric] nat_int)
  show "F ! k = D ! ((sn + k + h - 1) mod h)"
  proof (cases k)
    case 0
    then show ?thesis by (simp only: F_def up nth_Cons_0 add_0_right)
  next
    case (Suc k')
    then have "sn + k' < h" using k se by simp
    then have "(sn + k + h - 1) mod h = sn + k'" using Suc by simp
    then show ?thesis using Suc k by (simp add: F_def nth_append)
  qed
  show "F ! Suc k = D ! (sn + k)" using k by (simp add: F_def nth_append)
  show "F ! Suc (Suc k) = D ! ((sn + k + 1) mod h)"
  proof (cases "Suc k < m")
    case True
    then have "(sn + k + 1) mod h = sn + Suc k" using se by simp
    then show ?thesis using True by (simp add: F_def nth_append)
  next
    case False
    then have "Suc k = m" using k by simp
    then show ?thesis using down by (auto simp add: F_def nth_append)
  qed
qed

lemma band_rows:
  assumes wf: "wf_World wd" and H: "1 \<le> World.Height wd" and w: "0 \<le> w" "w < n"
  shows "\<exists>rg. region wd w n = Inr rg \<and> wf_Region rg \<and>
     spec_band (Region.Width rg) (Region.Field rg) (nat (Region.Height rg))
       = map (\<lambda>y. spec_generation wd ! y)
           [nat (band_start (World.Height wd) n w)..<nat (band_end (World.Height wd) n w)]"
proof -
  define Hh where "Hh = World.Height wd"
  define D where "D = Data (World.Field wd)"
  define W where "W = World.Width wd"
  define h where "h = nat Hh"
  define sn where "sn = nat (band_start Hh n w)"
  define m where "m = nat (band_end Hh n w - band_start Hh n w)"
  have len: "int (length D) = Hh" using wf by (simp add: wf_World_def D_def Hh_def)
  have b: "0 \<le> band_start Hh n w" "band_start Hh n w \<le> band_end Hh n w" "band_end Hh n w \<le> Hh"
    using band_bounds[of Hh w n] H w by (simp_all add: Hh_def)
  have Hh: "Hh = int h" and h: "1 \<le> h" using H by (simp_all add: h_def Hh_def)
  have s: "band_start Hh n w = int sn" using b by (simp add: sn_def)
  have e: "band_end Hh n w = int (sn + m)" using b by (simp add: sn_def m_def)
  have se: "sn + m \<le> h" using b e Hh by simp
  obtain rg where rg: "region wd w n = Inr rg" and wfr: "wf_Region rg"
    using region_wf[OF wf H w] by blast
  define F where "F = D ! nat ((int sn - 1 + int h) mod int h) # map (\<lambda>j. D ! (sn + j)) [0..<m]
                 @ [D ! nat (int (sn + m) mod int h)]"
  have rg': "rg = \<lparr>Region.Field = F, Start = int sn, End = int (sn + m),
          Height = int (sn + m) - int sn, Width = W\<rparr>"
    using rg region_ok[OF len[unfolded D_def Hh_def] H w]
    unfolding Hh_def[symmetric] D_def[symmetric] W_def[symmetric] s[unfolded Hh] e[unfolded Hh] Hh F_def
    by (simp only: sum.inject nat_int diff_add_inverse of_nat_add add_diff_cancel_left')
  have F: "Region.Field rg = F" and RW: "Region.Width rg = W" and RH: "nat (Region.Height rg) = m"
    by (simp_all add: rg')
  have "spec_band W (Region.Field rg) m = map (\<lambda>k. spec_generation wd ! (sn + k)) [0..<m]"
    unfolding spec_band_def
  proof (rule map_cong[OF refl])
    fix k assume "k \<in> set [0..<m]"
    then have k: "k < m" by simp
    then have kh: "sn + k < h" using se by simp
    have "spec_generation wd ! (sn + k)
        = spec_row W (D ! ((sn + k + h - 1) mod h)) (D ! (sn + k)) (D ! ((sn + k + 1) mod h))"
      using kh by (simp add: spec_generation_def Let_def h_def Hh_def D_def W_def)
    then show "spec_row W (Region.Field rg ! k) (Region.Field rg ! Suc k) (Region.Field rg ! Suc (Suc k))
        = spec_generation wd ! (sn + k)"
      unfolding F F_def using halo_rows[OF h se k, of D] by simp
  qed
  also have "\<dots> = map (\<lambda>y. spec_generation wd ! y) [sn..<sn + m]"
    by (simp add: map_add_upt[symmetric] o_def add.commute)
  finally have "spec_band W (Region.Field rg) m = map (\<lambda>y. spec_generation wd ! y) [sn..<sn + m]" .
  moreover have "nat (band_start Hh n w) = sn" "nat (band_end Hh n w) = sn + m"
    by (simp_all only: s e nat_int)
  ultimately show ?thesis
    using rg wfr RW RH unfolding Hh_def by auto
qed

lemma concat_segments:
  assumes "\<And>w. w < n \<Longrightarrow> f w \<le> f (Suc w)"
  shows "concat (map (\<lambda>w. map g [f w..<f (Suc w)]) [0..<n]) = map g [f 0..<f n]"
  using assms
proof (induction n)
  case 0
  then show ?case by simp
next
  case (Suc n)
  have mono: "f 0 \<le> f n" using Suc.prems
  proof (induction n)
    case 0 then show ?case by simp
  next
    case (Suc k)
    then have "f 0 \<le> f k" "f k \<le> f (Suc k)" by simp_all
    then show ?case by simp
  qed
  have "[f 0..<f (Suc n)] = [f 0..<f n] @ [f n..<f (Suc n)]"
    using mono Suc.prems[of n] by (metis le_Suc_ex lessI upt_add_eq_append)
  then show ?case using Suc by simp
qed

lemma update_rpc_ok:
  assumes "wf_Region rg"
  shows "update_rpc rg addr = spec_band (Region.Width rg) (Region.Field rg) (nat (Region.Height rg))"
  by (simp add: update_rpc_def WorkerService_Process_def update_Region_ok[OF assms])

lemma length_spec_generation [simp]: "length (spec_generation wd) = nat (World.Height wd)"
  by (simp add: spec_generation_def Let_def)

lemma update_World_ok:
  assumes wf: "wf_World wd" and H: "1 \<le> World.Height wd" and ne: "addrs \<noteq> []"
  shows "update_World addrs wd = Inr (wd\<lparr>World.Field := (World.Field wd)\<lparr>Data := spec_generation wd\<rparr>\<rparr>)"
proof -
  define n where "n = int (length addrs)"
  define Hh where "Hh = World.Height wd"
  define SG where "SG = spec_generation wd"
  define bnd where "bnd = (\<lambda>k. if int k = n then nat Hh else nat (band_start Hh n (int k)))"
  define band where "band = (\<lambda>w. map (\<lambda>y. SG ! y) [bnd w..<bnd (Suc w)])"
  have n: "1 \<le> n" using ne by (cases addrs) (simp_all add: n_def)
  have H0: "0 \<le> Hh" using H by (simp add: Hh_def)
  have e_bnd: "nat (band_end Hh n (int w)) = bnd (Suc w)" if "int w < n" for w
    using that by (auto simp add: bnd_def band_end_def band_start_def add.commute)
  have s_bnd: "nat (band_start Hh n (int w)) = bnd w" if "int w < n" for w
    using that by (simp add: bnd_def)
  have bnd_mono: "bnd w \<le> bnd (Suc w)" if "w < length addrs" for w
  proof -
    have w: "0 \<le> int w" "int w < n" using that by (simp_all add: n_def)
    have "band_start Hh n (int w) \<le> band_end Hh n (int w)"
      using band_bounds(2)[OF H0 w] .
    then show ?thesis using s_bnd[OF w(2)] e_bnd[OF w(2)] by linarith
  qed
  have reg: "\<exists>rg. region wd (int w) n = Inr rg \<and> update_rpc rg addr = band w" if "int w < n" for w addr
  proof -
    note wn = that
    obtain rg where "region wd (int w) n = Inr rg" "wf_Region rg"
      "spec_band (Region.Width rg) (Region.Field rg) (nat (Region.Height rg))
         = map (\<lambda>y. spec_generation wd ! y) [nat (band_start Hh n (int w))..<nat (band_end Hh n (int w))]"
      using band_rows[OF wf H, of "int w" n] wn unfolding Hh_def by auto
    then show ?thesis
      by (simp add: update_rpc_ok band_def s_bnd[OF that] e_bnd[OF that] SG_def)
  qed
  let ?b1 = "\<lambda>workerID regionChannel.
               bindE (region wd workerID n) (\<lambda>rg.
               bindE (index addrs workerID) (\<lambda>addr.
                 store regionChannel workerID (update_rpc rg addr)))"
  let ?P = "\<lambda>k ch. ch = map band [0..<nat k] @ replicate (nat (n - k)) []"
  have "\<exists>t'. for_loop 0 n ?b1 (replicate (nat n) []) = Inr t' \<and> ?P n t'"
  proof (rule for_loop_inv[where P="?P"])
    show "0 \<le> n" using n by simp
    show "?P 0 (replicate (nat n) [])" by simp
  next
    fix k t assume k: "0 \<le> k" "k < n" and P: "?P k t"
    define j where "j = nat k"
    have kj: "k = int j" using k by (simp add: j_def)
    have r: "nat (n - k) = Suc (nat (n - (k + 1)))" using k by simp
    have t: "t = map band [0..<j] @ [] # replicate (nat (n - (k + 1))) []"
      using P r by (simp add: j_def)
    have ia: "index addrs k = Inr (addrs ! j)" using k by (simp add: index_def n_def j_def)
    obtain rg where rg: "region wd k n = Inr rg" "update_rpc rg (addrs ! j) = band j"
      using reg[of j] k kj by auto
    have "store t k (band j) = Inr (map band [0..<Suc j] @ replicate (nat (n - (k + 1))) [])"
      by (simp add: store_def t kj list_update_append)
    moreover have "nat (k + 1) = Suc j" using kj by simp
    ultimately show "\<exists>t'. ?b1 k t = Inr t' \<and> ?P (k + 1) t'"
      using rg ia by (simp del: upt_Suc)
  qed
  then have l1: "for_loop 0 n ?b1 (replicate (nat n) []) = Inr (map band [0..<nat n])" by simp
  let ?b2 = "\<lambda>w newFieldData. bindE (index (map band [0..<nat n]) w) (\<lambda>rg. Inr (newFieldData @ rg))"
  let ?Q = "\<lambda>k acc. acc = concat (map band [0..<nat k])"
  have "\<exists>t'. for_loop 0 n ?b2 [] = Inr t' \<and> ?Q n t'"
  proof (rule for_loop_inv[where P="?Q"])
    show "0 \<le> n" using n by simp
    show "?Q 0 []" by simp
  next
    fix k t assume k: "0 \<le> k" "k < n" and Q: "?Q k t"
    have "index (map band [0..<nat n]) k = Inr (band (nat k))"
      using k by (simp add: index_def)
    moreover have "nat (k + 1) = Suc (nat k)" using k by simp
    ultimately show "\<exists>t'. ?b2 k t = Inr t' \<and> ?Q (k + 1) t'"
      using Q by simp
  qed
  then have l2: "for_loop 0 n ?b2 [] = Inr (concat (map band [0..<nat n]))" by simp
  have "concat (map band [0..<length addrs]) = map (\<lambda>y. SG ! y) [bnd 0..<bnd (length addrs)]"
    unfolding band_def by (rule concat_segments) (rule bnd_mono)
  moreover have "bnd 0 = 0" using n by (simp add: bnd_def band_start_def)
  moreover have "bnd (length addrs) = length SG" by (simp add: bnd_def n_def SG_def Hh_def)
  ultimately have "concat (map band [0..<nat n]) = SG"
    by (simp add: n_def map_nth)
  then show ?thesis
    unfolding update_World_def Let_def n_def[symmetric]
    by (simp add: l1 l2 SG_def)
qed

section \<open>Sequences of band boundaries\<close>

lemma seq_mono:
  fixes f :: "nat \<Rightarrow> int"
  assumes "\<And>k. k < N \<Longrightarrow> f k \<le> f (Suc k)" and "a \<le> b" and "b \<le> N"
  shows "f a \<le> f b"
  using assms(2,3)
proof (induction b)
  case 0
  then show ?case by simp
next
  case (Suc b)
  show ?case
  proof (cases "a = Suc b")
    case True
    then show ?thesis by simp
  next
    case False
    then have "f a \<le> f b" using Suc by simp
    moreover have "f b \<le> f (Suc b)" using assms(1)[of b] Suc.prems by simp
    ultimately show ?thesis by simp
  qed
qed

lemma seq_cover:
  fixes f :: "nat \<Rightarrow> int"
  assumes "f 0 \<le> y" and "y < f N"
  shows "\<exists>w<N. f w \<le> y \<and> y < f (Suc w)"
  using assms(2)
proof (induction N)
  case 0
  then show ?case using assms(1) by simp
next
  case (Suc N)
  show ?case
  proof (cases "y < f N")
    case True
    then obtain w where "w < N" "f w \<le> y \<and> y < f (Suc w)" using Suc.IH by blast
    then show ?thesis by (intro exI[of _ w]) simp
  next
    case False
    then show ?thesis using Suc.prems by (intro exI[of _ N]) simp
  qed
qed

lemma seq_unique:
  fixes f :: "nat \<Rightarrow> int"
  assumes mono: "\<And>k. k < N \<Longrightarrow> f k \<le> f (Suc k)"
    and w: "w < N" "f w \<le> y" "y < f (Suc w)"
    and v: "v < N" "f v \<le> y" "y < f (Suc v)"
  shows "w = v"
proof (rule ccontr)
  assume ne: "w \<noteq> v"
  show False
  proof (cases "w < v")
    case True
    then have "f (Suc w) \<le> f v" using seq_mono[of N f "Suc w" v] mono v(1) by simp
    then show False using w v by simp
  next
    case False
    then have "v < w" using ne by simp
    then have "f (Suc v) \<le> f w" using seq_mono[of N f "Suc v" w] mono w(1) by simp
    then show False using w v by simp
  qed
qed

lemma seq_telescope:
  fixes f :: "nat \<Rightarrow> int"
  shows "sum_list (map (\<lambda>w. f (Suc w) - f w) [0..<N]) = f N - f 0"
  by (induction N) simp_all

lemma band_end_next:
  assumes "0 \<le> w" "w + 1 < n"
  shows "band_end H n w = band_start H n (w + 1)"
  using assms by (simp add: band_end_def band_start_def)

lemma band_strict:
  assumes n: "1 \<le> n" "n \<le> H" and w: "0 \<le> w" "w < n"
  shows "band_start H n w < band_end H n w"
proof -
  have "n div n \<le> H div n" using n by (intro zdiv_mono1) simp_all
  then have bh: "1 \<le> H div n" using n by simp
  have nb: "n * (H div n) \<le> H"
    using n mult_div_mod_eq [of n H] pos_mod_sign [of n H] by linarith
  show ?thesis
  proof (cases "w = n - 1")
    case True
    have "(n - 1) * (H div n) = n * (H div n) - H div n" by (simp add: left_diff_distrib)
    then have "(n - 1) * (H div n) < H" using nb bh by linarith
    then show ?thesis using True by (simp add: band_start_def band_end_def)
  next
    case False
    have "w * (H div n) < w * (H div n) + H div n" using bh by simp
    then show ?thesis using False by (simp add: band_start_def band_end_def distrib_right)
  qed
qed

lemma glider_simps:
  "World.Height glider = 4" "World.Width glider = 4" "length (Data (World.Field glider)) = 4"
  by (simp_all add: glider_def world_of_def)

lemma wf_glider: "wf_World glider"
  by (simp add: wf_World_def glider_def world_of_def)

lemma map_nth_upt_shift: "map (\<lambda>j. D ! (a + j)) [0..<m] = map (\<lambda>y. D ! y) [a..<a + m]"
proof -
  have "[a..<a + m] = map (\<lambda>i. i + a) [0..<m]" by (simp add: map_add_upt add.commute)
  then show ?thesis by (simp add: o_def add.commute)
qed

section \<open>The worker step, cell by cell\<close>

lemma count_eq:
  assumes "0 \<le> r"
  shows "alive_neighbour_count F W (r + 1) c
     = spec_neighbours W (F ! nat r) (F ! nat (r + 1)) (F ! nat (r + 2)) c"
proof -
  have idx: "r + 1 + - 1 = r" "r + 1 + 0 = r + 1" "r + 1 + 1 = r + 2" "c + - 1 = c - 1" "c + 0 = c"
    by simp_all
  have f: "int (length (filter P (x # xs))) = (if P x then 1 else 0) + int (length (filter P xs))"
    for P and x :: "int \<times> int" and xs
    by simp
  have "alive_neighbour_count F W (r + 1) c =
      (if Alive (F ! nat r ! nat ((c - 1) mod W)) then 1 else 0)
    + ((if Alive (F ! nat r ! nat (c mod W)) then 1 else 0)
    + ((if Alive (F ! nat r ! nat ((c + 1) mod W)) then 1 else 0)
    + ((if Alive (F ! nat (r + 1) ! nat ((c - 1) mod W)) then 1 else 0)
    + ((if Alive (F ! nat (r + 1) ! nat ((c + 1) mod W)) then 1 else 0)
    + ((if Alive (F ! nat (r + 2) ! nat ((c - 1) mod W)) then 1 else 0)
    + ((if Alive (F ! nat (r + 2) ! nat (c mod W)) then 1 else 0)
    + (if Alive (F ! nat (r + 2) ! nat ((c + 1) mod W)) then 1 else 0)))))))"
    unfolding alive_neighbour_count_def neighbour_offsets_def
    by (simp only: f filter.simps(1) list.size of_nat_0 case_prod_conv idx add_0_right)
  also have "\<dots> = spec_neighbours W (F ! nat r) (F ! nat (r + 1)) (F ! nat (r + 2)) c"
    unfolding spec_neighbours_def spec_alive_def by (simp only: ac_simps)
  finally show ?thesis .
qed

lemma update_Region_cell:
  assumes wf: "wf_Region rg"
    and r: "0 \<le> r" "r < Region.Height rg" and c: "0 \<le> c" "c < Region.Width rg"
  shows "\<exists>rg'. update_Region rg = Inr rg' \<and>
     int (length (Region.Field rg')) = Region.Height rg \<and>
     Region.Field rg' ! nat r ! nat c =
       spec_cell (Region.Width rg) (Region.Field rg ! nat r) (Region.Field rg ! nat (r + 1))
         (Region.Field rg ! nat (r + 2)) c"
proof -
  have H: "0 \<le> Region.Height rg" using wf by (simp add: wf_Region_def)
  have nr: "nat r < nat (Region.Height rg)" "nat (r + 1) = Suc (nat r)" "nat (r + 2) = Suc (Suc (nat r))"
    using r by simp_all
  have nc: "nat c < nat (Region.Width rg)" using c by simp
  show ?thesis
    using H nr nc c(1) by (simp add: update_Region_ok[OF wf] spec_band_def spec_row_def)
qed

lemma wf_blinker_region: "wf_Region blinker_region"
  by (simp add: wf_Region_def blinker_region_def)

lemma blinker_count:
  "alive_neighbour_count (Region.Field blinker_region) (Region.Width blinker_region) 1 0 = 3"
  "alive_neighbour_count (Region.Field blinker_region) (Region.Width blinker_region) 1 1 = 2"
  by (simp_all add: alive_neighbour_count_def neighbour_offsets_def blinker_region_def)

lemma single_region:
  assumes wf: "wf_World wd" and H: "1 \<le> World.Height wd"
  shows "\<exists>rg rg'. region wd 0 1 = Inr rg \<and> update_Region rg = Inr rg' \<and>
     Region.Field rg' = spec_generation wd"
proof -
  obtain rg where rg: "region wd 0 1 = Inr rg" and wfr: "wf_Region rg"
    and sb: "spec_band (Region.Width rg) (Region.Field rg) (nat (Region.Height rg))
       = map (\<lambda>y. spec_generation wd ! y)
           [nat (band_start (World.Height wd) 1 0)..<nat (band_end (World.Height wd) 1 0)]"
    using band_rows[OF wf H, of 0 1] by auto
  have "map (\<lambda>y. spec_generation wd ! y) [0..<length (spec_generation wd)] = spec_generation wd"
    by (rule map_nth)
  then have "spec_band (Region.Width rg) (Region.Field rg) (nat (Region.Height rg)) = spec_generation wd"
    using sb by (simp add: band_start_def band_end_def)
  then show ?thesis using rg update_Region_ok[OF wfr] by simp
qed

section \<open>Steps of the run loop\<close>

lemma wf_next_World:
  assumes wf: "wf_World wd" and H: "1 \<le> World.Height wd"
  shows "wf_World (next_World wd)" "World.Height (next_World wd) = World.Height wd"
    "World.Width (next_World wd) = World.Width wd"
proof -
  have "Data (World.Field wd) \<noteq> []" using wf H by (auto simp add: wf_World_def)
  then obtain row where "row \<in> set (Data (World.Field wd))" by (cases "Data (World.Field wd)") auto
  then have "int (length row) = World.Width wd" using wf by (simp add: wf_World_def)
  then have W: "0 \<le> World.Width wd" by linarith
  have "\<forall>row \<in> set (spec_generation wd). int (length row) = World.Width wd"
    using W by (auto simp add: spec_generation_def Let_def)
  then show "wf_World (next_World wd)" using H by (simp add: wf_World_def next_World_def)
  show "World.Height (next_World wd) = World.Height wd" by (simp add: next_World_def)
  show "World.Width (next_World wd) = World.Width wd" by (simp add: next_World_def)
qed

lemma update_World_next:
  assumes "wf_World wd" "1 \<le> World.Height wd" "addrs \<noteq> []"
  shows "update_World addrs wd = Inr (next_World wd)"
  using update_World_ok[OF assms] by (simp add: next_World_def)

lemma compute_step:
  assumes "pc f = LoopHead" "turn f < turns f" "pause b = []" "quit b = []" "\<not> isPaused b"
    and "wf_World (world f)" "1 \<le> World.Height (world f)" "addresses b \<noteq> []"
  shows "Process_step (b, f) Compute
           (after_turn b (next_World (world f)),
            f\<lparr>world := next_World (world f), turn := turn f + 1\<rparr>)"
  unfolding after_turn_def
  using assms(1-5) update_World_next[OF assms(6-8)] by (rule Process_step.compute)

lemma wf_tiny: "wf_World tiny" "World.Height tiny = 1"
  by (simp_all add: wf_World_def tiny_def world_of_def)

lemma main_simps:
  "addresses main_BrokerService \<noteq> []" "pause main_BrokerService = []"
  "quit main_BrokerService = []" "\<not> isPaused main_BrokerService"
  "BrokerService.Turns main_BrokerService = 0"
  "length (addresses main_BrokerService) = 2"
  by (simp_all add: main_BrokerService_def)

lemma begin_simps:
  "pc (Process_begin req) = LoopHead" "turn (Process_begin req) = 0"
  "turns (Process_begin req) = BrokerProcessRequest.Turns req"
  "world (Process_begin req) = BrokerProcessRequest.World req"
  "res (Process_begin req) = zero_BrokerProcessResponse"
  by (simp_all add: Process_begin_def)

lemma both_pending_simps:
  "pause both_pending = [True]" "quit both_pending = [True]" "isPaused both_pending"
  by (simp_all add: both_pending_def Quit_def Pause_def Let_def main_BrokerService_def)

section \<open>Counting alive cells\<close>

lemma filter_snd_zip:
  "length xs = length ys \<Longrightarrow> length (filter (\<lambda>(x, c). P c) (zip xs ys)) = length (filter P ys)"
  by (induction xs ys rule: list_induct2) simp_all

lemma length_aliveCellsInRow: "length (aliveCellsInRow row y) = length (filter Alive row)"
  by (simp add: aliveCellsInRow_def enumerate_eq_zip filter_snd_zip)

lemma length_alive_rows:
  "length (concat (map (\<lambda>(y, row). aliveCellsInRow row (int y)) (enumerate n D)))
     = length (filter Alive (concat D))"
  by (induction D arbitrary: n) (simp_all add: length_aliveCellsInRow)

lemma length_alive: "length (alive wd) = alive_cells wd"
  by (simp add: alive_def alive_cells_def length_alive_rows)

lemma alive_cells_next_glider: "alive_cells (next_World glider) = 8"
  by code_simp

lemma alive_cells_zero_World: "alive_cells zero_World = 0"
  by (simp add: alive_cells_def zero_World_def zero_Field_def)

section \<open>Interleaved runs\<close>

lemma fine_step_to: "fine_step s t' \<Longrightarrow> t' = t \<Longrightarrow> fine_step s t"
  by simp

lemma Compute_refined:
  assumes "Process_step (b, f) Compute (b', f')"
  shows "fine_step\<^sup>*\<^sup>*
           \<lparr>session = b, run = f, stage = Selecting, quit_call = q, quit_res = r\<rparr>
           \<lparr>session = b', run = f', stage = Selecting, quit_call = q, quit_res = r\<rparr>"
  using assms
proof (cases rule: Process_step.cases)
  case (compute world')
  let ?s0 = "\<lparr>session = b, run = f, stage = Selecting, quit_call = q, quit_res = r\<rparr>"
  let ?f1 = "f\<lparr>world := world'\<rparr>"
  let ?s1 = "?s0\<lparr>stage := Updating\<rparr>"
  let ?s2 = "?s0\<lparr>run := ?f1, stage := WriteTurns\<rparr>"
  let ?s3 = "?s2\<lparr>session := b\<lparr>BrokerService.Turns := BrokerService.Turns b + 1\<rparr>,
               stage := WriteCellsCount\<rparr>"
  let ?s4 = "?s2\<lparr>session := b\<lparr>BrokerService.Turns := BrokerService.Turns b + 1,
               BrokerService.CellsCount := int (length (alive world'))\<rparr>, stage := WriteWorld\<rparr>"
  let ?s5 = "?s2\<lparr>session := b', stage := AdvanceTurn\<rparr>"
  let ?s6 = "\<lparr>session = b', run = f', stage = Selecting, quit_call = q, quit_res = r\<rparr>"
  have 1: "fine_step ?s0 ?s1" by (rule fine_step.loop_default) (simp_all add: compute)
  have 2: "fine_step ?s1 ?s2"
    by (rule fine_step_to[OF fine_step.loop_update[where world' = world']]) (simp_all add: compute)
  have 3: "fine_step ?s2 ?s3" by (rule fine_step_to[OF fine_step.loop_turns]) simp_all
  have 4: "fine_step ?s3 ?s4" by (rule fine_step_to[OF fine_step.loop_count]) simp_all
  have 5: "fine_step ?s4 ?s5" by (rule fine_step_to[OF fine_step.loop_world]) (simp_all add: compute)
  have 6: "fine_step ?s5 ?s6" by (rule fine_step_to[OF fine_step.loop_turn]) (simp_all add: compute)
  from 1 2 3 4 5 6 show ?thesis
    by (meson rtranclp.rtrancl_into_rtrancl rtranclp.rtrancl_refl)
qed

lemma Quit_runs:
  assumes "quit_call s = NoQuit"
  shows "fine_step\<^sup>*\<^sup>* s
     (s\<lparr>session := snd (Quit (session s)), quit_res := fst (Quit (session s)),
        quit_call := Blocked\<rparr>)"
proof -
  let ?b = "session s"
  let ?s1 = "s\<lparr>quit_call := ReadTurns\<rparr>"
  let ?s2 = "s\<lparr>quit_res := \<lparr>BrokerQuitResponse.Turns = BrokerService.Turns ?b\<rparr>,
               quit_call := ResetTurns\<rparr>"
  let ?s3 = "?s2\<lparr>session := ?b\<lparr>BrokerService.Turns := 0\<rparr>, quit_call := ResetCellsCount\<rparr>"
  let ?s4 = "?s2\<lparr>session := ?b\<lparr>BrokerService.Turns := 0, BrokerService.CellsCount := 0\<rparr>,
                quit_call := ResetWorld\<rparr>"
  let ?s5 = "?s2\<lparr>session := ?b\<lparr>BrokerService.Turns := 0, BrokerService.CellsCount := 0,
                BrokerService.World := zero_World\<rparr>, quit_call := Send\<rparr>"
  let ?s6 = "?s2\<lparr>session := ?b\<lparr>BrokerService.Turns := 0, BrokerService.CellsCount := 0,
                BrokerService.World := zero_World, quit := quit ?b @ [True]\<rparr>, quit_call := Blocked\<rparr>"
  have 1: "fine_step s ?s1" using assms by (rule fine_step.quit_arrives)
  have 2: "fine_step ?s1 ?s2" by (rule fine_step_to[OF fine_step.quit_read]) simp_all
  have 3: "fine_step ?s2 ?s3" by (rule fine_step_to[OF fine_step.quit_turns]) simp_all
  have 4: "fine_step ?s3 ?s4" by (rule fine_step_to[OF fine_step.quit_count]) simp_all
  have 5: "fine_step ?s4 ?s5" by (rule fine_step_to[OF fine_step.quit_world]) simp_all
  have 6: "fine_step ?s5 ?s6" by (rule fine_step_to[OF fine_step.quit_send]) simp_all
  have "fine_step\<^sup>*\<^sup>* s ?s6"
    using 1 2 3 4 5 6 by (meson rtranclp.rtrancl_into_rtrancl rtranclp.rtrancl_refl)
  moreover have "?s6 = s\<lparr>session := snd (Quit (session s)), quit_res := fst (Quit (session s)),
        quit_call := Blocked\<rparr>"
    by (simp add: Quit_def)
  ultimately show ?thesis by simp
qed

lemma update_glider:
  "update_World (addresses main_BrokerService) glider = Inr (next_World glider)"
  by (rule update_World_next) (simp_all add: wf_glider glider_simps main_simps)

lemma start_to_updating:
  "fine_step start (start\<lparr>stage := Updating\<rparr>)"
  by (rule fine_step.loop_default)
     (simp_all add: start_def begin_simps glider_request_def main_simps)

lemma trace_quit_in_flight: "fine_step\<^sup>*\<^sup>* start quit_in_flight"
proof -
  let ?f0 = "Process_begin glider_request"
  let ?g = "next_World glider"
  let ?r = "\<lparr>BrokerQuitResponse.Turns = 0\<rparr>"
  let ?bq = "snd (Quit main_BrokerService)"
  let ?s1 = "start\<lparr>stage := Updating\<rparr>"
  let ?s2 = "\<lparr>session = ?bq, run = ?f0, stage = Updating, quit_call = Blocked, quit_res = ?r\<rparr>"
  let ?s3 = "\<lparr>session = ?bq, run = ?f0\<lparr>world := ?g\<rparr>, stage = WriteTurns, quit_call = Blocked,
               quit_res = ?r\<rparr>"
  let ?s4 = "?s3\<lparr>session := ?bq\<lparr>BrokerService.Turns := 1\<rparr>, stage := WriteCellsCount\<rparr>"
  let ?s5 = "?s3\<lparr>session := ?bq\<lparr>BrokerService.Turns := 1,
               BrokerService.CellsCount := int (length (alive ?g))\<rparr>, stage := WriteWorld\<rparr>"
  let ?s6 = "?s3\<lparr>session := after_turn ?bq ?g, stage := AdvanceTurn\<rparr>"
  let ?s7 = "?s3\<lparr>session := after_turn ?bq ?g, run := ?f0\<lparr>world := ?g, turn := 1\<rparr>,
               stage := Selecting\<rparr>"
  let ?s8 = "?s7\<lparr>session := (after_turn ?bq ?g)\<lparr>quit := []\<rparr>,
               run := ?f0\<lparr>world := ?g, turn := 1, pc := Returned\<rparr>\<rparr>"
  have 1: "fine_step start ?s1" by (rule start_to_updating)
  have "fine_step\<^sup>*\<^sup>* ?s1 (?s1\<lparr>session := snd (Quit (session ?s1)),
      quit_res := fst (Quit (session ?s1)), quit_call := Blocked\<rparr>)"
    by (rule Quit_runs) (simp add: start_def)
  then have 2: "fine_step\<^sup>*\<^sup>* ?s1 ?s2"
    by (simp add: start_def Quit_def main_simps)
  have 3: "fine_step ?s2 ?s3"
    by (rule fine_step_to[OF fine_step.loop_update[where world' = ?g]])
       (simp_all add: Quit_def begin_simps glider_request_def update_glider)
  have 4: "fine_step ?s3 ?s4"
    by (rule fine_step_to[OF fine_step.loop_turns]) (simp_all add: Quit_def)
  have 5: "fine_step ?s4 ?s5"
    by (rule fine_step_to[OF fine_step.loop_count]) simp_all
  have 6: "fine_step ?s5 ?s6"
    by (rule fine_step_to[OF fine_step.loop_world]) (simp_all add: after_turn_def Quit_def)
  have 7: "fine_step ?s6 ?s7"
    by (rule fine_step_to[OF fine_step.loop_turn]) (simp_all add: begin_simps)
  have q: "Process_step (after_turn ?bq ?g, ?f0\<lparr>world := ?g, turn := 1\<rparr>) RecvQuit
     ((after_turn ?bq ?g)\<lparr>quit := []\<rparr>, ?f0\<lparr>world := ?g, turn := 1\<rparr>\<lparr>pc := Returned\<rparr>)"
    by (rule Process_step.recv_quit[where v = True])
       (simp_all add: begin_simps glider_request_def after_turn_def Quit_def main_simps)
  have 8: "fine_step ?s7 ?s8"
    by (rule fine_step_to[OF fine_step.loop_other[OF _ _ _ _, where a = RecvQuit
          and b' = "(after_turn ?bq ?g)\<lparr>quit := []\<rparr>"
          and f' = "?f0\<lparr>world := ?g, turn := 1, pc := Returned\<rparr>"]])
       (use q in simp_all)
  have 9: "fine_step ?s8 quit_in_flight"
    by (rule fine_step_to[OF fine_step.quit_return]) (simp_all add: quit_in_flight_def)
  from 3 4 5 6 7 8 9 have "fine_step\<^sup>*\<^sup>* ?s2 quit_in_flight"
    by (meson rtranclp.rtrancl_into_rtrancl rtranclp.rtrancl_refl)
  with 1 2 show ?thesis
    by (meson converse_rtranclp_into_rtranclp rtranclp_trans)
qed

lemma trace_mid_turn: "fine_step\<^sup>*\<^sup>* start mid_turn"
proof -
  let ?f0 = "Process_begin glider_request"
  let ?g = "next_World glider"
  let ?s1 = "start\<lparr>stage := Updating\<rparr>"
  let ?s2 = "start\<lparr>run := ?f0\<lparr>world := ?g\<rparr>, stage := WriteTurns\<rparr>"
  let ?s3 = "?s2\<lparr>session := main_BrokerService\<lparr>BrokerService.Turns := 1\<rparr>,
               stage := WriteCellsCount\<rparr>"
  have 1: "fine_step start ?s1" by (rule start_to_updating)
  have 2: "fine_step ?s1 ?s2"
    by (rule fine_step_to[OF fine_step.loop_update[where world' = ?g]])
       (simp_all add: start_def begin_simps glider_request_def update_glider)
  have 3: "fine_step ?s2 ?s3"
    by (rule fine_step_to[OF fine_step.loop_turns]) (simp_all add: start_def main_simps)
  have 4: "fine_step ?s3 mid_turn"
    by (rule fine_step_to[OF fine_step.loop_count]) (simp_all add: start_def mid_turn_def)
  from 1 2 3 4 show ?thesis
    by (meson rtranclp.rtrancl_into_rtrancl rtranclp.rtrancl_refl)
qed

lemma trace_torn: "fine_step\<^sup>*\<^sup>* mid_turn torn"
proof -
  let ?f1 = "(Process_begin glider_request)\<lparr>world := next_World glider\<rparr>"
  let ?g = "next_World glider"
  let ?bq = "snd (Quit (session mid_turn))"
  let ?r = "\<lparr>BrokerQuitResponse.Turns = 1\<rparr>"
  let ?s1 = "\<lparr>session = ?bq, run = ?f1, stage = WriteWorld, quit_call = Blocked, quit_res = ?r\<rparr>"
  let ?s2 = "?s1\<lparr>session := ?bq\<lparr>BrokerService.World := ?g\<rparr>, stage := AdvanceTurn\<rparr>"
  let ?s3 = "?s2\<lparr>run := ?f1\<lparr>turn := 1\<rparr>, stage := Selecting\<rparr>"
  let ?s4 = "?s3\<lparr>session := ?bq\<lparr>BrokerService.World := ?g, quit := []\<rparr>,
               run := ?f1\<lparr>turn := 1, pc := Returned\<rparr>\<rparr>"
  have "fine_step\<^sup>*\<^sup>* mid_turn (mid_turn\<lparr>session := snd (Quit (session mid_turn)),
      quit_res := fst (Quit (session mid_turn)), quit_call := Blocked\<rparr>)"
    by (rule Quit_runs) (simp add: mid_turn_def)
  then have 1: "fine_step\<^sup>*\<^sup>* mid_turn ?s1"
    by (simp add: mid_turn_def Quit_def)
  have 2: "fine_step ?s1 ?s2"
    by (rule fine_step_to[OF fine_step.loop_world]) simp_all
  have 3: "fine_step ?s2 ?s3"
    by (rule fine_step_to[OF fine_step.loop_turn]) (simp_all add: begin_simps)
  have q: "Process_step (?bq\<lparr>BrokerService.World := ?g\<rparr>, ?f1\<lparr>turn := 1\<rparr>) RecvQuit
     (?bq\<lparr>BrokerService.World := ?g\<rparr>\<lparr>quit := []\<rparr>, ?f1\<lparr>turn := 1\<rparr>\<lparr>pc := Returned\<rparr>)"
    by (rule Process_step.recv_quit[where v = True])
       (simp_all add: begin_simps glider_request_def mid_turn_def Quit_def main_simps)
  have 4: "fine_step ?s3 ?s4"
    by (rule fine_step_to[OF fine_step.loop_other[OF _ _ _ _, where a = RecvQuit
          and b' = "?bq\<lparr>BrokerService.World := ?g, quit := []\<rparr>"
          and f' = "?f1\<lparr>turn := 1, pc := Returned\<rparr>"]])
       (use q in simp_all)
  have 5: "fine_step ?s4 torn"
    by (rule fine_step_to[OF fine_step.quit_return]) (simp_all add: torn_def)
  from 2 3 4 5 have "fine_step\<^sup>*\<^sup>* ?s1 torn"
    by (meson rtranclp.rtrancl_into_rtrancl rtranclp.rtrancl_refl)
  with 1 show ?thesis by (meson rtranclp_trans)
qed

section \<open>Partitioning\<close>

text \<open>
  C3. For every height and worker count with \<open>1 \<le> workers \<le> height\<close>, the regions that
  \<open>region\<close> builds for the worker indices \<open>0 .. workers - 1\<close> have non-empty row ranges
  \<open>[Start, End)\<close> that follow one another without gap or overlap from row 0 to row
  \<open>height\<close>: every row lies in exactly one band, and the band heights \<open>End - Start\<close> add up
  to \<open>height\<close>.
\<close>

theorem bands_partition_rows:
  assumes len: "int (length (Data (World.Field wd))) = World.Height wd"
    and n: "1 \<le> n" "n \<le> World.Height wd"
  shows "\<exists>rs. length rs = nat n \<and>
     (\<forall>w < nat n. region wd (int w) n = Inr (rs ! w) \<and> Start (rs ! w) < End (rs ! w) \<and>
        Region.Height (rs ! w) = End (rs ! w) - Start (rs ! w)) \<and>
     Start (rs ! 0) = 0 \<and> End (rs ! (nat n - 1)) = World.Height wd \<and>
     (\<forall>w. Suc w < nat n \<longrightarrow> End (rs ! w) = Start (rs ! Suc w)) \<and>
     (\<forall>y. 0 \<le> y \<and> y < World.Height wd \<longrightarrow>
        (\<exists>!w. w < nat n \<and> Start (rs ! w) \<le> y \<and> y < End (rs ! w))) \<and>
     sum_list (map Region.Height rs) = World.Height wd"
proof -
  define H where "H = World.Height wd"
  define N where "N = nat n"
  define f where "f = (\<lambda>k. if int k = n then H else band_start H n (int k))"
  have H: "1 \<le> H" using n by (simp add: H_def)
  have nN: "n = int N" using n by (simp add: N_def)
  have f0: "f 0 = 0" using n by (simp add: f_def band_start_def)
  have fN: "f N = H" by (simp add: f_def nN)
  have fs: "band_start H n (int w) = f w" if "w < N" for w
    using that by (simp add: f_def nN)
  have fe: "band_end H n (int w) = f (Suc w)" if "w < N" for w
    using that by (auto simp add: f_def nN band_end_def band_start_def add.commute)
  have strict: "f w < f (Suc w)" if "w < N" for w
    using band_strict[OF n, of "int w"] that fs[OF that] fe[OF that] by (simp add: nN H_def)
  obtain R where R: "\<And>w. w < N \<Longrightarrow> region wd (int w) n = Inr (R w) \<and>
        Start (R w) = f w \<and> End (R w) = f (Suc w) \<and> Region.Height (R w) = f (Suc w) - f w"
  proof -
    have "\<forall>w. \<exists>r. w < N \<longrightarrow> region wd (int w) n = Inr r \<and>
        Start r = f w \<and> End r = f (Suc w) \<and> Region.Height r = f (Suc w) - f w"
    proof (intro allI)
      fix w
      show "\<exists>r. w < N \<longrightarrow> region wd (int w) n = Inr r \<and>
        Start r = f w \<and> End r = f (Suc w) \<and> Region.Height r = f (Suc w) - f w"
      proof (cases "w < N")
        case True
        have "0 \<le> int w" "int w < n" using True by (simp_all add: nN)
        from region_ok[OF len H[unfolded H_def] this] show ?thesis
          using fs[OF True] fe[OF True] by (simp add: H_def)
      next
        case False
        then show ?thesis by simp
      qed
    qed
    then obtain R where "\<forall>w. w < N \<longrightarrow> region wd (int w) n = Inr (R w) \<and>
        Start (R w) = f w \<and> End (R w) = f (Suc w) \<and> Region.Height (R w) = f (Suc w) - f w"
      by metis
    then show ?thesis using that by blast
  qed
  define rs where "rs = map R [0..<N]"
  have nth: "rs ! w = R w" if "w < N" for w using that by (simp add: rs_def)
  have N0: "0 < N" using n by (simp add: N_def)
  have 1: "length rs = nat n" by (simp add: rs_def N_def)
  have 2: "\<forall>w < nat n. region wd (int w) n = Inr (rs ! w) \<and> Start (rs ! w) < End (rs ! w) \<and>
        Region.Height (rs ! w) = End (rs ! w) - Start (rs ! w)"
    using R strict nth by (simp add: N_def[symmetric])
  have 3: "Start (rs ! 0) = 0" using R[OF N0] nth[OF N0] f0 by simp
  have 4: "End (rs ! (nat n - 1)) = World.Height wd"
    using R[of "N - 1"] nth[of "N - 1"] N0 fN by (simp add: N_def[symmetric] H_def)
  have 5: "\<forall>w. Suc w < nat n \<longrightarrow> End (rs ! w) = Start (rs ! Suc w)"
    using R nth by (simp add: N_def[symmetric])
  have 6: "\<forall>y. 0 \<le> y \<and> y < World.Height wd \<longrightarrow>
        (\<exists>!w. w < nat n \<and> Start (rs ! w) \<le> y \<and> y < End (rs ! w))"
  proof (intro allI impI)
    fix y assume y: "0 \<le> y \<and> y < World.Height wd"
    then have "f 0 \<le> y" "y < f N" by (simp_all add: f0 fN H_def)
    then obtain w where w: "w < N" "f w \<le> y" "y < f (Suc w)" using seq_cover by blast
    have le: "\<And>k. k < N \<Longrightarrow> f k \<le> f (Suc k)" using strict by (simp add: less_imp_le)
    show "\<exists>!w. w < nat n \<and> Start (rs ! w) \<le> y \<and> y < End (rs ! w)"
      unfolding N_def[symmetric]
    proof (rule ex1I[of _ w])
      show "w < N \<and> Start (rs ! w) \<le> y \<and> y < End (rs ! w)"
        using w R[OF w(1)] nth[OF w(1)] by simp
    next
      fix v assume v: "v < N \<and> Start (rs ! v) \<le> y \<and> y < End (rs ! v)"
      then have "v < N" "f v \<le> y" "y < f (Suc v)" using R[of v] nth[of v] by simp_all
      then show "v = w" using seq_unique[of N f v y w] le w by blast
    qed
  qed
  have "map Region.Height rs = map (\<lambda>w. f (Suc w) - f w) [0..<N]"
    unfolding rs_def using R by simp
  then have 7: "sum_list (map Region.Height rs) = World.Height wd"
    by (simp add: seq_telescope f0 fN H_def)
  show ?thesis using 1 2 3 4 5 6 7 by blast
qed

theorem bands_partition_rows_witness:
  "int (length (Data (World.Field glider))) = World.Height glider \<and> (1::int) \<le> 2 \<and>
   2 \<le> World.Height glider \<and>
   (\<exists>rs. length rs = 2 \<and> region glider 0 2 = Inr (rs ! 0) \<and> region glider 1 2 = Inr (rs ! 1) \<and>
      Start (rs ! 0) = 0 \<and> End (rs ! 0) = Start (rs ! 1) \<and> End (rs ! 1) = 4 \<and>
      sum_list (map Region.Height rs) = 4)"
proof -
  have h: "int (length (Data (World.Field glider))) = World.Height glider"
    "(1::int) \<le> 2" "2 \<le> World.Height glider"
    by (simp_all add: glider_simps)
  from bands_partition_rows[OF h] obtain rs where rs: "length rs = nat 2"
    "\<forall>w < nat 2. region glider (int w) 2 = Inr (rs ! w) \<and> Start (rs ! w) < End (rs ! w) \<and>
        Region.Height (rs ! w) = End (rs ! w) - Start (rs ! w)"
    "Start (rs ! 0) = 0" "End (rs ! (nat 2 - 1)) = World.Height glider"
    "\<forall>w. Suc w < nat 2 \<longrightarrow> End (rs ! w) = Start (rs ! Suc w)"
    "sum_list (map Region.Height rs) = World.Height glider"
    by blast
  have "region glider 0 2 = Inr (rs ! 0)" using rs(2)[rule_format, of 0] by simp
  moreover have "region glider 1 2 = Inr (rs ! 1)" using rs(2)[rule_format, of 1] by simp
  moreover have "End (rs ! 0) = Start (rs ! 1)" using rs(5)[rule_format, of 0] by simp
  moreover have "End (rs ! 1) = 4" using rs(4) by (simp add: glider_simps)
  ultimately show ?thesis using h rs(1,3,6) by (auto simp add: glider_simps)
qed

text \<open>
  C4. For \<open>1 \<le> workers \<le> height\<close> and every worker index \<open>w\<close>, the region's row array is the
  halo row above, the band rows \<open>Start .. End - 1\<close> and the halo row below, \<open>Height + 2\<close> rows in
  all with \<open>Height = End - Start\<close>; the halo above is grid row \<open>(Start - 1 + height) mod height\<close>,
  the halo below is grid row \<open>End mod height\<close>, and that index is the first band row of worker
  \<open>(w + 1) mod workers\<close>.
\<close>

theorem region_halo_rows:
  assumes len: "int (length (Data (World.Field wd))) = World.Height wd"
    and n: "1 \<le> n" "n \<le> World.Height wd" and w: "0 \<le> w" "w < n"
  shows "\<exists>rg nxt. region wd w n = Inr rg \<and> region wd ((w + 1) mod n) n = Inr nxt \<and>
     Region.Height rg = End rg - Start rg \<and>
     int (length (Region.Field rg)) = Region.Height rg + 2 \<and>
     Region.Field rg =
       [Data (World.Field wd) ! nat ((Start rg - 1 + World.Height wd) mod World.Height wd)]
       @ map (\<lambda>y. Data (World.Field wd) ! y) [nat (Start rg)..<nat (End rg)]
       @ [Data (World.Field wd) ! nat (End rg mod World.Height wd)] \<and>
     End rg mod World.Height wd = Start nxt"
proof -
  define H where "H = World.Height wd"
  define D where "D = Data (World.Field wd)"
  define s where "s = band_start H n w"
  define e where "e = band_end H n w"
  have H: "1 \<le> H" using n by (simp add: H_def)
  have b: "0 \<le> s" "s \<le> e" "e \<le> H"
    using band_bounds[of H w n] H w by (simp_all add: s_def e_def)
  have w': "0 \<le> (w + 1) mod n" "(w + 1) mod n < n" using n by simp_all
  have r1: "region wd w n = Inr \<lparr>Region.Field =
            D ! nat ((s - 1 + H) mod H) # map (\<lambda>j. D ! (nat s + j)) [0..<nat (e - s)] @ [D ! nat (e mod H)],
          Start = s, End = e, Height = e - s, Width = World.Width wd\<rparr>"
    using region_ok[OF len H[unfolded H_def] w] by (simp only: H_def D_def s_def e_def)
  obtain nxt where r2: "region wd ((w + 1) mod n) n = Inr nxt"
    and sn: "Start nxt = band_start H n ((w + 1) mod n)"
    using region_ok[OF len H[unfolded H_def] w'] by (simp add: H_def)
  have m: "nat s + nat (e - s) = nat e" using b by simp
  have rows: "map (\<lambda>j. D ! (nat s + j)) [0..<nat (e - s)] = map (\<lambda>y. D ! y) [nat s..<nat e]"
    using map_nth_upt_shift[of D "nat s" "nat (e - s)"] m by simp
  have cont: "e mod H = band_start H n ((w + 1) mod n)"
  proof (cases "w = n - 1")
    case True
    then have "(w + 1) mod n = 0" by simp
    then show ?thesis using True by (simp add: e_def band_end_def band_start_def)
  next
    case False
    then have w1: "w + 1 < n" using w by simp
    then have m1: "(w + 1) mod n = w + 1" using w by simp
    have "band_start H n (w + 1) < band_end H n (w + 1)"
      using band_strict[of n H "w + 1"] n w w1 by (simp add: H_def)
    moreover have "band_end H n (w + 1) \<le> H"
      using band_bounds(3)[of H "w + 1" n] H w w1 by simp
    moreover have "e = band_start H n (w + 1)"
      using band_end_next[OF w(1) w1] by (simp add: e_def)
    ultimately have "e < H" by simp
    then have "e mod H = e" using b by simp
    then show ?thesis using \<open>e = band_start H n (w + 1)\<close> m1 by simp
  qed
  have len2: "int (length (D ! nat ((s - 1 + H) mod H) # map (\<lambda>j. D ! (nat s + j)) [0..<nat (e - s)]
                @ [D ! nat (e mod H)])) = e - s + 2"
    using b by simp
  show ?thesis
    unfolding H_def[symmetric] D_def[symmetric]
    using r1 r2 sn cont len2 rows by (intro exI[of _ "\<lparr>Region.Field =
            D ! nat ((s - 1 + H) mod H) # map (\<lambda>j. D ! (nat s + j)) [0..<nat (e - s)] @ [D ! nat (e mod H)],
          Start = s, End = e, Height = e - s, Width = World.Width wd\<rparr>"] exI[of _ nxt]) simp
qed

theorem region_halo_rows_witness:
  "int (length (Data (World.Field glider))) = World.Height glider \<and> (1::int) \<le> 2 \<and>
   2 \<le> World.Height glider \<and> (0::int) \<le> 1 \<and> (1::int) < 2 \<and>
   (\<exists>rg nxt. region glider 1 2 = Inr rg \<and> region glider 0 2 = Inr nxt \<and>
      int (length (Region.Field rg)) = Region.Height rg + 2 \<and>
      End rg mod World.Height glider = Start nxt)"
proof -
  have h: "int (length (Data (World.Field glider))) = World.Height glider"
    "(1::int) \<le> 2" "2 \<le> World.Height glider" "(0::int) \<le> 1" "(1::int) < 2"
    by (simp_all add: glider_simps)
  from region_halo_rows[OF h] show ?thesis using h by auto
qed

section \<open>The worker's rule\<close>

text \<open>
  C2. For every well-formed region (\<open>Height + 2\<close> rows, each \<open>Width\<close> cells long, \<open>Width > 0\<close>),
  \<open>update_Region\<close> returns a region whose row array holds exactly \<open>Height\<close> rows, and every band
  cell follows the rule over its eight neighbours (columns wrapped modulo the width, rows taken
  from the supplied array): dead when the count of alive neighbours is below 2 or above 3, alive
  when it is 3, unchanged when it is 2.
\<close>

theorem worker_step_rule:
  assumes wf: "wf_Region rg" and W: "0 < Region.Width rg"
  shows "\<exists>rg'. update_Region rg = Inr rg' \<and>
     int (length (Region.Field rg')) = Region.Height rg \<and>
     (\<forall>r c. 0 \<le> r \<and> r < Region.Height rg \<and> 0 \<le> c \<and> c < Region.Width rg \<longrightarrow>
        (let k = alive_neighbour_count (Region.Field rg) (Region.Width rg) (r + 1) c;
             old = Alive (Region.Field rg ! nat (r + 1) ! nat c);
             new = Alive (Region.Field rg' ! nat r ! nat c)
         in (k < 2 \<or> k > 3 \<longrightarrow> \<not> new) \<and> (k = 3 \<longrightarrow> new) \<and> (k = 2 \<longrightarrow> new = old)))"
proof -
  have H: "0 \<le> Region.Height rg" using wf by (simp add: wf_Region_def)
  obtain rg' where u: "update_Region rg = Inr rg'"
    and F': "Region.Field rg' = spec_band (Region.Width rg) (Region.Field rg) (nat (Region.Height rg))"
    using update_Region_ok[OF wf] by simp
  have "int (length (Region.Field rg')) = Region.Height rg" using H by (simp add: F')
  moreover have "let k = alive_neighbour_count (Region.Field rg) (Region.Width rg) (r + 1) c;
             old = Alive (Region.Field rg ! nat (r + 1) ! nat c);
             new = Alive (Region.Field rg' ! nat r ! nat c)
         in (k < 2 \<or> k > 3 \<longrightarrow> \<not> new) \<and> (k = 3 \<longrightarrow> new) \<and> (k = 2 \<longrightarrow> new = old)"
    if rc: "0 \<le> r \<and> r < Region.Height rg \<and> 0 \<le> c \<and> c < Region.Width rg" for r c
  proof -
    from update_Region_cell[OF wf, of r c] rc u
    have "Region.Field rg' ! nat r ! nat c =
       spec_cell (Region.Width rg) (Region.Field rg ! nat r) (Region.Field rg ! nat (r + 1))
         (Region.Field rg ! nat (r + 2)) c" by simp
    then show ?thesis
      using rc by (simp add: Let_def count_eq spec_cell_def spec_rule_def)
  qed
  ultimately show ?thesis using u by blast
qed

theorem worker_step_rule_witness:
  "wf_Region blinker_region \<and> 0 < Region.Width blinker_region \<and>
   (\<exists>rg'. update_Region blinker_region = Inr rg' \<and> int (length (Region.Field rg')) = 1 \<and>
      Alive (Region.Field rg' ! 0 ! 0) \<and> Alive (Region.Field rg' ! 0 ! 1))"
proof -
  have W: "0 < Region.Width blinker_region" by (simp add: blinker_region_def)
  from worker_step_rule[OF wf_blinker_region W] obtain rg' where
    u: "update_Region blinker_region = Inr rg'"
    and l: "int (length (Region.Field rg')) = Region.Height blinker_region"
    and a: "\<And>r c. 0 \<le> r \<and> r < Region.Height blinker_region \<and> 0 \<le> c \<and> c < Region.Width blinker_region \<Longrightarrow>
        (let k = alive_neighbour_count (Region.Field blinker_region) (Region.Width blinker_region) (r + 1) c;
             old = Alive (Region.Field blinker_region ! nat (r + 1) ! nat c);
             new = Alive (Region.Field rg' ! nat r ! nat c)
         in (k < 2 \<or> k > 3 \<longrightarrow> \<not> new) \<and> (k = 3 \<longrightarrow> new) \<and> (k = 2 \<longrightarrow> new = old))"
    by blast
  have "Alive (Region.Field rg' ! 0 ! 0)"
    using a[of 0 0] blinker_count by (simp add: Let_def) (simp add: blinker_region_def)
  moreover have "Alive (Region.Field rg' ! 0 ! 1)"
    using a[of 0 1] blinker_count by (simp add: Let_def) (simp add: blinker_region_def)
  moreover have "int (length (Region.Field rg')) = 1" using l by (simp add: blinker_region_def)
  ultimately show ?thesis using u W wf_blinker_region by blast
qed

text \<open>
  C10. For every well-formed region, \<open>update_Region\<close> changes only the \<open>Alive\<close> field: the cell at
  band position \<open>(r, c)\<close> of the result carries the \<open>X\<close> and \<open>Y\<close> of the cell at \<open>(r + 1, c)\<close> of the
  supplied row array.
\<close>

theorem worker_keeps_coordinates:
  assumes wf: "wf_Region rg"
  shows "\<exists>rg'. update_Region rg = Inr rg' \<and>
     (\<forall>r c. 0 \<le> r \<and> r < Region.Height rg \<and> 0 \<le> c \<and> c < Region.Width rg \<longrightarrow>
        Cell.X (Region.Field rg' ! nat r ! nat c) = Cell.X (Region.Field rg ! nat (r + 1) ! nat c) \<and>
        Cell.Y (Region.Field rg' ! nat r ! nat c) = Cell.Y (Region.Field rg ! nat (r + 1) ! nat c) \<and>
        Region.Field rg' ! nat r ! nat c =
          (Region.Field rg ! nat (r + 1) ! nat c)\<lparr>Alive := Alive (Region.Field rg' ! nat r ! nat c)\<rparr>)"
proof -
  obtain rg' where u: "update_Region rg = Inr rg'"
    using update_Region_ok[OF wf] by simp
  have "Cell.X (Region.Field rg' ! nat r ! nat c) = Cell.X (Region.Field rg ! nat (r + 1) ! nat c) \<and>
        Cell.Y (Region.Field rg' ! nat r ! nat c) = Cell.Y (Region.Field rg ! nat (r + 1) ! nat c) \<and>
        Region.Field rg' ! nat r ! nat c =
          (Region.Field rg ! nat (r + 1) ! nat c)\<lparr>Alive := Alive (Region.Field rg' ! nat r ! nat c)\<rparr>"
    if rc: "0 \<le> r \<and> r < Region.Height rg \<and> 0 \<le> c \<and> c < Region.Width rg" for r c
    using update_Region_cell[OF wf, of r c] rc u by (simp add: spec_cell_def)
  then show ?thesis using u by blast
qed

theorem worker_keeps_coordinates_witness:
  "wf_Region blinker_region \<and>
   (\<exists>rg'. update_Region blinker_region = Inr rg' \<and>
      Cell.X (Region.Field rg' ! 0 ! 2) = 2 \<and> Cell.Y (Region.Field rg' ! 0 ! 2) = 0)"
proof -
  from worker_keeps_coordinates[OF wf_blinker_region] obtain rg' where
    u: "update_Region blinker_region = Inr rg'"
    and a: "\<And>r c. 0 \<le> r \<and> r < Region.Height blinker_region \<and> 0 \<le> c \<and> c < Region.Width blinker_region \<Longrightarrow>
        Cell.X (Region.Field rg' ! nat r ! nat c) = Cell.X (Region.Field blinker_region ! nat (r + 1) ! nat c) \<and>
        Cell.Y (Region.Field rg' ! nat r ! nat c) = Cell.Y (Region.Field blinker_region ! nat (r + 1) ! nat c)"
    by blast
  have "Cell.X (Region.Field rg' ! 0 ! 2) = 2 \<and> Cell.Y (Region.Field rg' ! 0 ! 2) = 0"
    using a[of 0 2] by (simp add: blinker_region_def)
  then show ?thesis using u wf_blinker_region by blast
qed

section \<open>Fan-out and fan-in against the single region\<close>

text \<open>
  C1. For every World that keeps the grid invariant and every worker count with
  \<open>1 \<le> workers \<le> height\<close>, partitioning the World into \<open>workers\<close> regions, applying the worker's
  \<open>update_Region\<close> to each and concatenating the returned bands in worker-index order
  (\<open>update_World\<close>) yields the same grid as \<open>update_Region\<close> applied to the whole grid as the
  single region of \<open>workers = 1\<close>.
\<close>

theorem partition_matches_single_region:
  assumes wf: "wf_World wd"
    and n: "1 \<le> int (length addrs)" "int (length addrs) \<le> World.Height wd"
  shows "\<exists>rg rg'. region wd 0 1 = Inr rg \<and> update_Region rg = Inr rg' \<and>
     update_World addrs wd = Inr (wd\<lparr>World.Field := (World.Field wd)\<lparr>Data := Region.Field rg'\<rparr>\<rparr>) \<and>
     update_World addrs wd = update_World [addr] wd"
proof -
  have H: "1 \<le> World.Height wd" using n by simp
  have ne: "addrs \<noteq> []" using n by auto
  obtain rg rg' where r: "region wd 0 1 = Inr rg" "update_Region rg = Inr rg'"
    "Region.Field rg' = spec_generation wd"
    using single_region[OF wf H] by blast
  have "update_World addrs wd = Inr (wd\<lparr>World.Field := (World.Field wd)\<lparr>Data := Region.Field rg'\<rparr>\<rparr>)"
    using update_World_ok[OF wf H ne] r(3) by simp
  moreover have "update_World [addr] wd = Inr (wd\<lparr>World.Field := (World.Field wd)\<lparr>Data := Region.Field rg'\<rparr>\<rparr>)"
    using update_World_ok[OF wf H, of "[addr]"] r(3) by simp
  ultimately show ?thesis using r by auto
qed

theorem partition_matches_single_region_witness:
  "wf_World glider \<and> 1 \<le> int (length [''18.234.185.167:8030'', ''3.93.10.151:8030'']) \<and>
   int (length [''18.234.185.167:8030'', ''3.93.10.151:8030'']) \<le> World.Height glider \<and>
   (\<exists>rg rg'. region glider 0 1 = Inr rg \<and> update_Region rg = Inr rg' \<and>
      update_World [''18.234.185.167:8030'', ''3.93.10.151:8030''] glider
        = Inr (glider\<lparr>World.Field := (World.Field glider)\<lparr>Data := Region.Field rg'\<rparr>\<rparr>))"
proof -
  have h: "1 \<le> int (length [''18.234.185.167:8030'', ''3.93.10.151:8030''])"
    "int (length [''18.234.185.167:8030'', ''3.93.10.151:8030'']) \<le> World.Height glider"
    by (simp_all add: glider_simps)
  from partition_matches_single_region[OF wf_glider h] show ?thesis
    using wf_glider h by blast
qed

section \<open>The run loop and the session\<close>

text \<open>
  C5. The claim: when the run loop receives a pending quit signal before the requested turns
  are done, it returns at once and its response carries the World reached and the turn count
  reached. The loop does return at once, but its response is left as the server allocated it:
  for a run of two turns on the glider that is quit after the first turn, the response holds the
  empty World and \<open>Turns = 0\<close>, while the World reached has four rows.
\<close>

theorem quit_response_is_empty:
  "Process_step (main_BrokerService, Process_begin glider_request) Compute
     (after_turn main_BrokerService (next_World glider),
      (Process_begin glider_request)\<lparr>world := next_World glider, turn := 1\<rparr>) \<and>
   Process_step
     (snd (Quit (after_turn main_BrokerService (next_World glider))),
      (Process_begin glider_request)\<lparr>world := next_World glider, turn := 1\<rparr>)
     RecvQuit
     ((snd (Quit (after_turn main_BrokerService (next_World glider))))\<lparr>quit := []\<rparr>,
      (Process_begin glider_request)\<lparr>world := next_World glider, turn := 1, pc := Returned\<rparr>) \<and>
   res ((Process_begin glider_request)\<lparr>world := next_World glider, turn := 1, pc := Returned\<rparr>)
     = \<lparr>BrokerProcessResponse.World = zero_World, Turns = 0\<rparr> \<and>
   World.Height (world ((Process_begin glider_request)\<lparr>world := next_World glider, turn := 1,
     pc := Returned\<rparr>)) = 4 \<and>
   World.Height zero_World = 0"
proof -
  let ?f0 = "Process_begin glider_request"
  let ?f1 = "?f0\<lparr>world := next_World glider, turn := 1\<rparr>"
  let ?b1 = "after_turn main_BrokerService (next_World glider)"
  have w0: "world ?f0 = glider" "turn ?f0 = 0" "turns ?f0 = 2" "pc ?f0 = LoopHead"
    by (simp_all add: begin_simps glider_request_def)
  have "Process_step (main_BrokerService, ?f0) Compute
          (after_turn main_BrokerService (next_World (world ?f0)),
           ?f0\<lparr>world := next_World (world ?f0), turn := turn ?f0 + 1\<rparr>)"
    by (rule compute_step) (simp_all add: w0 main_simps wf_glider glider_simps)
  then have s1: "Process_step (main_BrokerService, ?f0) Compute (?b1, ?f1)"
    by (simp add: w0)
  have "Process_step (snd (Quit ?b1), ?f1) RecvQuit
          ((snd (Quit ?b1))\<lparr>quit := []\<rparr>, ?f1\<lparr>pc := Returned\<rparr>)"
    by (rule Process_step.recv_quit[where v = True])
       (simp_all add: w0 Quit_def after_turn_def main_simps)
  then have s2: "Process_step (snd (Quit ?b1), ?f1) RecvQuit
          ((snd (Quit ?b1))\<lparr>quit := []\<rparr>, ?f0\<lparr>world := next_World glider, turn := 1, pc := Returned\<rparr>)"
    by simp
  have r: "res (?f0\<lparr>world := next_World glider, turn := 1, pc := Returned\<rparr>)
     = \<lparr>BrokerProcessResponse.World = zero_World, Turns = 0\<rparr>"
    by (simp add: begin_simps zero_BrokerProcessResponse_def)
  have h: "World.Height (world (?f0\<lparr>world := next_World glider, turn := 1, pc := Returned\<rparr>)) = 4"
    by (simp add: next_World_def glider_simps)
  have z: "World.Height zero_World = 0" by (simp add: zero_World_def)
  show ?thesis using s1 s2 r h z by blast
qed

text \<open>
  C6. The claim: \<open>Quit\<close> answers with the session's turn count as it was when the request
  arrived and resets the session, so that a \<open>Report\<close> that follows answers \<open>Turns = 0\<close> and
  \<open>CellsCount = 0\<close>. The handler does read the turn count first and does reset the three fields,
  but it does so before the loop has received its signal. For a request that arrives while the
  first turn on the glider is inside \<open>World.update\<close>: the turn then assigns the session, the next
  \<open>select\<close> receives the signal, \<open>Quit\<close> returns with \<open>Turns = 0\<close>, and a \<open>Report\<close> of the session it
  leaves answers \<open>Turns = 1\<close> and \<open>CellsCount = 8\<close>.
\<close>

theorem report_after_quit_is_not_empty:
  "fine_step\<^sup>*\<^sup>* start quit_in_flight \<and>
   quit_call quit_in_flight = QuitReturned \<and> pc (run quit_in_flight) = Returned \<and>
   quit_res quit_in_flight = \<lparr>BrokerQuitResponse.Turns = 0\<rparr> \<and>
   fst (Report (session quit_in_flight)) = \<lparr>BrokerReportResponse.Turns = 1, CellsCount = 8\<rparr> \<and>
   alive_cells (BrokerService.World (session quit_in_flight)) = 8"
  using trace_quit_in_flight
  by (simp add: quit_in_flight_def Report_def after_turn_def Quit_def main_simps length_alive
      alive_cells_next_glider)

text \<open>
  C7, as amended. No step of the run loop computes a generation while a quit or a pause signal
  is pending: the \<open>default\<close> branch of the \<open>select\<close> is taken only when neither channel has a
  sender. An iteration that starts with a quit signal pending receives that signal, or, when a
  pause signal is pending as well, possibly the pause signal: the \<open>select\<close> does not rank the two
  channels.
\<close>

theorem quit_never_skipped:
  assumes step: "Process_step (b, f) a (b', f')"
  shows "(quit b \<noteq> [] \<or> pause b \<noteq> [] \<longrightarrow> a \<noteq> Compute) \<and>
     (pc f = LoopHead \<and> turn f < turns f \<and> quit b \<noteq> [] \<longrightarrow>
        a = RecvQuit \<or> (pause b \<noteq> [] \<and> a = RecvPause (hd (pause b))))"
  using step by (cases rule: Process_step.cases) auto

theorem quit_never_skipped_witness:
  "Process_step (both_pending, Process_begin glider_request) RecvQuit
     (both_pending\<lparr>quit := []\<rparr>, (Process_begin glider_request)\<lparr>pc := Returned\<rparr>) \<and>
   quit both_pending \<noteq> [] \<and> pc (Process_begin glider_request) = LoopHead \<and>
   turn (Process_begin glider_request) < turns (Process_begin glider_request) \<and>
   RecvQuit \<noteq> Compute"
proof -
  have s: "Process_step (both_pending, Process_begin glider_request) RecvQuit
     (both_pending\<lparr>quit := []\<rparr>, (Process_begin glider_request)\<lparr>pc := Returned\<rparr>)"
    by (rule Process_step.recv_quit[where v = True])
       (simp_all add: begin_simps glider_request_def both_pending_simps)
  from quit_never_skipped[OF s] show ?thesis
    using s by (simp add: both_pending_simps begin_simps glider_request_def)
qed

text \<open>
  C7 as the specification states it has the loop check for a pause signal before it checks for
  a quit signal. With both signals pending, the loop can receive the quit signal and return while
  the pause signal still waits.
\<close>

theorem quit_taken_before_pause:
  "pause both_pending = [True] \<and> quit both_pending = [True] \<and>
   Process_step (both_pending, Process_begin glider_request) RecvQuit
     (both_pending\<lparr>quit := []\<rparr>, (Process_begin glider_request)\<lparr>pc := Returned\<rparr>)"
proof -
  have "Process_step (both_pending, Process_begin glider_request) RecvQuit
     (both_pending\<lparr>quit := []\<rparr>, (Process_begin glider_request)\<lparr>pc := Returned\<rparr>)"
    by (rule Process_step.recv_quit[where v = True])
       (simp_all add: begin_simps glider_request_def both_pending_simps)
  then show ?thesis by (simp add: both_pending_simps)
qed

text \<open>
  C8, as amended. The run loop has no check of the configuration. For a World that keeps the
  grid invariant, with at least one row, and at least one worker address, whatever the relation
  between the worker count and the height, an iteration with no signal pending computes the next
  generation; it cannot fail, and the World it leaves keeps the invariant and the height, so the
  same holds for the next turn.
\<close>

theorem no_configuration_check:
  assumes "pc f = LoopHead" "turn f < turns f" "pause b = []" "quit b = []" "\<not> isPaused b"
    and wf: "wf_World (world f)" and H: "1 \<le> World.Height (world f)"
    and ne: "addresses b \<noteq> []"
  shows "Process_step (b, f) Compute
           (after_turn b (next_World (world f)),
            f\<lparr>world := next_World (world f), turn := turn f + 1\<rparr>) \<and>
         wf_World (next_World (world f)) \<and>
         World.Height (next_World (world f)) = World.Height (world f) \<and>
         (\<forall>a s. Process_step (b, f) a s \<longrightarrow> a = Compute)"
proof -
  have u: "update_World (addresses b) (world f) = Inr (next_World (world f))"
    using update_World_next[OF wf H ne] .
  have "a = Compute" if "Process_step (b, f) a s" for a s
    using that assms(1-5) u by (cases rule: Process_step.cases) auto
  then show ?thesis
    using compute_step[OF assms] wf_next_World[OF wf H] by blast
qed

theorem no_configuration_check_witness:
  "pc (Process_begin tiny_request) = LoopHead \<and>
   turn (Process_begin tiny_request) < turns (Process_begin tiny_request) \<and>
   pause main_BrokerService = [] \<and> quit main_BrokerService = [] \<and>
   \<not> isPaused main_BrokerService \<and> wf_World (world (Process_begin tiny_request)) \<and>
   1 \<le> World.Height (world (Process_begin tiny_request)) \<and>
   addresses main_BrokerService \<noteq> [] \<and>
   World.Height (world (Process_begin tiny_request)) < int (length (addresses main_BrokerService)) \<and>
   Process_step (main_BrokerService, Process_begin tiny_request) Compute
     (after_turn main_BrokerService (next_World (world (Process_begin tiny_request))),
      (Process_begin tiny_request)\<lparr>world := next_World (world (Process_begin tiny_request)),
         turn := turn (Process_begin tiny_request) + 1\<rparr>)"
proof -
  have h: "pc (Process_begin tiny_request) = LoopHead"
    "turn (Process_begin tiny_request) < turns (Process_begin tiny_request)"
    "pause main_BrokerService = []" "quit main_BrokerService = []"
    "\<not> isPaused main_BrokerService" "wf_World (world (Process_begin tiny_request))"
    "1 \<le> World.Height (world (Process_begin tiny_request))"
    "addresses main_BrokerService \<noteq> []"
    by (simp_all add: begin_simps tiny_request_def main_simps wf_tiny)
  have "World.Height (world (Process_begin tiny_request)) < int (length (addresses main_BrokerService))"
    by (simp add: begin_simps tiny_request_def main_simps wf_tiny)
  then show ?thesis using no_configuration_check[OF h] h by blast
qed

text \<open>
  C8 as the specification states it has the broker reject a run whose worker count exceeds the
  height. The two workers of \<open>main\<close> on a World of one row: the run computes its turn and
  completes with \<open>Turns = 1\<close>.
\<close>

theorem oversized_pool_is_run:
  "World.Height tiny < int (length (addresses main_BrokerService)) \<and>
   Process_step (main_BrokerService, Process_begin tiny_request) Compute
     (after_turn main_BrokerService (next_World tiny),
      (Process_begin tiny_request)\<lparr>world := next_World tiny, turn := 1\<rparr>) \<and>
   Process_step
     (after_turn main_BrokerService (next_World tiny),
      (Process_begin tiny_request)\<lparr>world := next_World tiny, turn := 1\<rparr>)
     Complete
     (after_turn main_BrokerService (next_World tiny),
      (Process_begin tiny_request)\<lparr>world := next_World tiny, turn := 1,
         res := \<lparr>BrokerProcessResponse.World = next_World tiny, Turns = 1\<rparr>, pc := Returned\<rparr>)"
proof -
  let ?f0 = "Process_begin tiny_request"
  let ?f1 = "?f0\<lparr>world := next_World tiny, turn := 1\<rparr>"
  let ?b1 = "after_turn main_BrokerService (next_World tiny)"
  have w0: "world ?f0 = tiny" "turn ?f0 = 0" "turns ?f0 = 1" "pc ?f0 = LoopHead"
    by (simp_all add: begin_simps tiny_request_def)
  have "Process_step (main_BrokerService, ?f0) Compute
          (after_turn main_BrokerService (next_World (world ?f0)),
           ?f0\<lparr>world := next_World (world ?f0), turn := turn ?f0 + 1\<rparr>)"
    by (rule compute_step) (simp_all add: w0 main_simps wf_tiny)
  then have s1: "Process_step (main_BrokerService, ?f0) Compute (?b1, ?f1)"
    by (simp add: w0)
  have "Process_step (?b1, ?f1) Complete
          (?b1, ?f1\<lparr>res := \<lparr>BrokerProcessResponse.World = world ?f1,
                               Turns = BrokerService.Turns ?b1\<rparr>, pc := Returned\<rparr>)"
    by (rule Process_step.complete) (simp_all add: w0)
  then have s2: "Process_step (?b1, ?f1) Complete
     (?b1, ?f0\<lparr>world := next_World tiny, turn := 1,
         res := \<lparr>BrokerProcessResponse.World = next_World tiny, Turns = 1\<rparr>, pc := Returned\<rparr>)"
    by (simp add: after_turn_def main_simps)
  have "World.Height tiny < int (length (addresses main_BrokerService))"
    by (simp add: wf_tiny main_simps)
  then show ?thesis using s1 s2 by blast
qed

text \<open>
  C9, as amended. Every operation of the broker, run as a whole, keeps \<open>CellsCount\<close> equal to
  the number of cells of the stored World whose \<open>Alive\<close> flag is set: the initial session has
  it; \<open>Report\<close>, \<open>Save\<close>, \<open>Pause\<close> and \<open>Shutdown\<close> keep it; \<open>Quit\<close> keeps it, with the count 0; every
  step of the run loop keeps it, and a completed turn stores the World it computed, with one
  more turn counted.
\<close>

theorem operations_keep_count:
  assumes inv: "BrokerService.CellsCount b = int (alive_cells (BrokerService.World b))"
  shows "BrokerService.CellsCount main_BrokerService
           = int (alive_cells (BrokerService.World main_BrokerService)) \<and>
     BrokerService.CellsCount (snd (Report b)) = int (alive_cells (BrokerService.World (snd (Report b)))) \<and>
     BrokerService.CellsCount (snd (Save b)) = int (alive_cells (BrokerService.World (snd (Save b)))) \<and>
     BrokerService.CellsCount (snd (Pause b)) = int (alive_cells (BrokerService.World (snd (Pause b)))) \<and>
     BrokerService.CellsCount (snd (Quit b)) = int (alive_cells (BrokerService.World (snd (Quit b)))) \<and>
     BrokerService.CellsCount (snd (Quit b)) = 0 \<and>
     BrokerService.CellsCount (snd (Shutdown b))
       = int (alive_cells (BrokerService.World (snd (Shutdown b)))) \<and>
     (\<forall>f a b' f'. Process_step (b, f) a (b', f') \<longrightarrow>
        BrokerService.CellsCount b' = int (alive_cells (BrokerService.World b')) \<and>
        (a = Compute \<longrightarrow> BrokerService.World b' = world f' \<and>
           BrokerService.Turns b' = BrokerService.Turns b + 1))"
proof -
  have "BrokerService.CellsCount b' = int (alive_cells (BrokerService.World b')) \<and>
        (a = Compute \<longrightarrow> BrokerService.World b' = world f' \<and>
           BrokerService.Turns b' = BrokerService.Turns b + 1)"
    if "Process_step (b, f) a (b', f')" for f a b' f'
    using that inv by (cases rule: Process_step.cases) (auto simp add: length_alive)
  then show ?thesis
    using inv
    by (simp add: Report_def Save_def Pause_def Quit_def Shutdown_def Let_def
        main_BrokerService_def alive_cells_zero_World)
qed

theorem operations_keep_count_witness:
  "BrokerService.CellsCount main_BrokerService
     = int (alive_cells (BrokerService.World main_BrokerService)) \<and>
   Process_step (main_BrokerService, Process_begin glider_request) Compute
     (after_turn main_BrokerService (next_World glider),
      (Process_begin glider_request)\<lparr>world := next_World glider, turn := 1\<rparr>) \<and>
   BrokerService.CellsCount (after_turn main_BrokerService (next_World glider)) = 8 \<and>
   alive_cells (BrokerService.World (after_turn main_BrokerService (next_World glider))) = 8"
proof -
  let ?f0 = "Process_begin glider_request"
  have i: "BrokerService.CellsCount main_BrokerService
     = int (alive_cells (BrokerService.World main_BrokerService))"
    by (simp add: main_BrokerService_def alive_cells_zero_World)
  have w0: "world ?f0 = glider" "turn ?f0 = 0" "turns ?f0 = 2" "pc ?f0 = LoopHead"
    by (simp_all add: begin_simps glider_request_def)
  have "Process_step (main_BrokerService, ?f0) Compute
          (after_turn main_BrokerService (next_World (world ?f0)),
           ?f0\<lparr>world := next_World (world ?f0), turn := turn ?f0 + 1\<rparr>)"
    by (rule compute_step) (simp_all add: w0 main_simps wf_glider glider_simps)
  then have s: "Process_step (main_BrokerService, ?f0) Compute
     (after_turn main_BrokerService (next_World glider), ?f0\<lparr>world := next_World glider, turn := 1\<rparr>)"
    by (simp add: w0)
  from operations_keep_count[OF i] s
  have c: "BrokerService.CellsCount (after_turn main_BrokerService (next_World glider))
      = int (alive_cells (BrokerService.World (after_turn main_BrokerService (next_World glider))))"
    by blast
  have a: "alive_cells (BrokerService.World (after_turn main_BrokerService (next_World glider))) = 8"
    by (simp add: after_turn_def alive_cells_next_glider)
  show ?thesis using i s c a by simp
qed

text \<open>
  C9 as stated has the equality hold always. The session is assigned one field at a time and
  without a lock. After the first turn on the glider has assigned \<open>CellsCount\<close> and before it
  assigns \<open>World\<close>, the count is 8 beside the empty stored World; when a \<open>Quit\<close> runs at that point,
  the turn's assignment to \<open>World\<close> follows the reset, and after the loop and \<open>Quit\<close> have both
  returned the count is 0 beside a stored World of 8 alive cells.
\<close>

theorem count_torn_by_quit:
  "fine_step\<^sup>*\<^sup>* start mid_turn \<and>
   BrokerService.CellsCount (session mid_turn) = 8 \<and>
   alive_cells (BrokerService.World (session mid_turn)) = 0 \<and>
   fine_step\<^sup>*\<^sup>* mid_turn torn \<and>
   quit_call torn = QuitReturned \<and> pc (run torn) = Returned \<and> stage torn = Selecting \<and>
   BrokerService.CellsCount (session torn) = 0 \<and>
   alive_cells (BrokerService.World (session torn)) = 8"
  using trace_mid_turn trace_torn
  by (simp add: mid_turn_def torn_def Quit_def main_BrokerService_def length_alive
      alive_cells_next_glider alive_cells_zero_World)

end
